theory Spec2Isabelle
  imports Main "HOL-Library.Word"
begin

unbundle bit_operations_syntax

section \<open>The task table of \<^verbatim>\<open>scheduler.c\<close>\<close>

text \<open>
  The scheduler keeps three file-level variables: \<^verbatim>\<open>tasks_counter\<close> (a \<^verbatim>\<open>uint32_t\<close>),
  \<^verbatim>\<open>scheduler_status\<close> (a \<^verbatim>\<open>uint8_t\<close> of flag bits) and \<^verbatim>\<open>task_array\<close>, an array of
  \<^verbatim>\<open>MAX_TASKS\<close> task records. Every function of the source becomes a function on a record
  of these three variables that returns the updated record.

  A function pointer and a \<^verbatim>\<open>void *\<close> are addresses, with \<open>0\<close> for \<^verbatim>\<open>NULL\<close>. Undefined
  behaviour of the C program (a read or write of \<^verbatim>\<open>task_array\<close> past its end, a call
  through a null function pointer) is a value of type \<open>fault\<close>.

  \<^verbatim>\<open>scheduler_start\<close> and \<^verbatim>\<open>scheduler_report_status\<close> only read the table and write the
  run flag and the log; no property below depends on them, and they are not modelled.
\<close>

type_synonym callback_task_t = nat

definition NULL :: nat where
  "NULL = 0"

text \<open>
  Modelled from the spec: \<^verbatim>\<open>scheduler.h\<close>, which declares \<^verbatim>\<open>task_t\<close>, the task status
  enumeration, \<^verbatim>\<open>task_handler_t\<close> and \<^verbatim>\<open>MAX_TASKS\<close>, is not among the sources. The five
  status values are the ones \<^verbatim>\<open>scheduler.c\<close> and the specification name; the fields of
  the records are the ones \<^verbatim>\<open>scheduler.c\<close> reads and writes, \<^verbatim>\<open>delay\<close> and \<^verbatim>\<open>period\<close>
  with the type of the parameters of \<^verbatim>\<open>scheduler_add_task\<close> they are assigned from.
  \<^verbatim>\<open>MAX_TASKS\<close> is the parameter \<open>n\<close> of every function below.
\<close>

datatype task_status_t = STOPPED | RUN_ALWAYS | READY | RUNNING | SUSPENDED

record task_handler_t =
  index :: "32 word"
  parameter :: nat

record task_t =
  ptask :: callback_task_t
  task_name :: "string option"
  delay :: "32 word"
  period :: "32 word"
  status :: task_status_t
  task_handler :: task_handler_t

record sched =
  tasks_counter :: "32 word"
  scheduler_status :: "8 word"
  task_array :: "nat \<Rightarrow> task_t"

datatype fault = OutOfBounds | NullCall

text \<open>The values of \<^verbatim>\<open>sch_sts_t\<close> that the functions return, and the bits of \<^verbatim>\<open>sch_flags_t\<close>.\<close>

definition SCH_STATUS_OK :: int where
  "SCH_STATUS_OK = 0"

definition SCH_ERROR :: int where
  "SCH_ERROR = - 1"

definition SCH_STATUS_FLAG :: nat where
  "SCH_STATUS_FLAG = 0"

definition SCH_TASK_CREATE_FLAG :: nat where
  "SCH_TASK_CREATE_FLAG = 1"

definition SCH_RUN_FLAG :: nat where
  "SCH_RUN_FLAG = 4"

definition BIT_SET :: "8 word \<Rightarrow> nat \<Rightarrow> 8 word" where
  "BIT_SET reg b = reg OR push_bit b 1"

definition BIT_CLEAR :: "8 word \<Rightarrow> nat \<Rightarrow> 8 word" where
  "BIT_CLEAR reg b = reg AND NOT (push_bit b 1)"

definition set_flag :: "nat \<Rightarrow> sched \<Rightarrow> sched" where
  "set_flag b s = s\<lparr>scheduler_status := BIT_SET (scheduler_status s) b\<rparr>"

definition clear_flag :: "nat \<Rightarrow> sched \<Rightarrow> sched" where
  "clear_flag b s = s\<lparr>scheduler_status := BIT_CLEAR (scheduler_status s) b\<rparr>"

text \<open>Assignment to one element of \<^verbatim>\<open>task_array\<close>.\<close>

definition put_task :: "nat \<Rightarrow> task_t \<Rightarrow> sched \<Rightarrow> sched" where
  "put_task i t s = s\<lparr>task_array := (task_array s)(i := t)\<rparr>"

subsection \<open>\<^verbatim>\<open>scheduler_update\<close>: the tick\<close>

text \<open>The body of the loop of \<^verbatim>\<open>scheduler_update\<close>, on the record of one slot.\<close>

definition update_task :: "task_t \<Rightarrow> task_t" where
  "update_task t =
     (if ptask t \<noteq> NULL then
        (if delay t = 0 then
           (let t1 = (if status t \<noteq> RUN_ALWAYS \<and> status t \<noteq> SUSPENDED
                      then t\<lparr>status := READY\<rparr> else t)
            in (if period t1 > 0 then t1\<lparr>delay := period t1\<rparr> else t1))
         else t\<lparr>delay := delay t - 1\<rparr>)
      else t)"

function update_loop :: "nat \<Rightarrow> nat \<Rightarrow> sched \<Rightarrow> sched" where
  "update_loop n i s =
     (if i < n then update_loop n (i + 1) (put_task i (update_task (task_array s i)) s)
      else s)"
  by pat_completeness auto
termination
  by (relation "measure (\<lambda>(n, i, s). n - i)") auto

definition scheduler_update :: "nat \<Rightarrow> sched \<Rightarrow> int \<times> sched" where
  "scheduler_update n s = (SCH_STATUS_OK, update_loop n 0 s)"

subsection \<open>\<^verbatim>\<open>scheduler_delete_task\<close>\<close>

text \<open>
  The source indexes \<^verbatim>\<open>task_array\<close> with its argument unchecked; an index that is not
  below \<^verbatim>\<open>MAX_TASKS\<close> is a fault. The decrement of \<^verbatim>\<open>tasks_counter\<close> is the wrapping
  one of \<^verbatim>\<open>uint32_t\<close>. The fields \<^verbatim>\<open>period\<close> and \<^verbatim>\<open>task_name\<close> are not assigned.
\<close>

definition clear_task :: "task_t \<Rightarrow> task_t" where
  "clear_task t =
     t\<lparr>ptask := NULL, task_handler := \<lparr>index = 0, parameter = NULL\<rparr>,
       delay := 0, status := STOPPED\<rparr>"

definition scheduler_delete_task :: "nat \<Rightarrow> nat \<Rightarrow> sched \<Rightarrow> fault + int \<times> sched" where
  "scheduler_delete_task n i s =
     (if \<not> i < n then Inl OutOfBounds
      else if ptask (task_array s i) \<noteq> NULL then
        Inr (SCH_STATUS_OK,
          (put_task i (clear_task (task_array s i)) s)\<lparr>tasks_counter := tasks_counter s - 1\<rparr>)
      else Inr (SCH_STATUS_OK, s))"

subsection \<open>\<^verbatim>\<open>scheduler_init\<close>\<close>

text \<open>
  The loop of \<^verbatim>\<open>scheduler_init\<close> deletes every slot and breaks at the first call that does
  not return \<^verbatim>\<open>SCH_STATUS_OK\<close>. The registration of \<^verbatim>\<open>scheduler_update\<close> with the board's
  tick source has no effect on the three variables and is left out.
\<close>

function init_loop :: "nat \<Rightarrow> nat \<Rightarrow> sched \<Rightarrow> fault + int \<times> sched" where
  "init_loop n i s =
     (if i < n then
        (case scheduler_delete_task n i s of
           Inl f \<Rightarrow> Inl f
         | Inr (r, s') \<Rightarrow>
             if SCH_STATUS_OK \<noteq> r then Inr (SCH_ERROR, set_flag SCH_STATUS_FLAG s')
             else init_loop n (i + 1) s')
      else Inr (SCH_STATUS_OK, s))"
  by pat_completeness auto
termination
  by (relation "measure (\<lambda>(n, i, s). n - i)") auto

definition scheduler_init :: "nat \<Rightarrow> sched \<Rightarrow> fault + int \<times> sched" where
  "scheduler_init n s =
     (case init_loop n 0 (s\<lparr>tasks_counter := 0, scheduler_status := 0\<rparr>) of
        Inl f \<Rightarrow> Inl f
      | Inr (ret, s1) \<Rightarrow>
          if ret = SCH_STATUS_OK
          then Inr (ret, clear_flag SCH_RUN_FLAG (clear_flag SCH_STATUS_FLAG s1))
          else Inr (ret, set_flag SCH_RUN_FLAG (set_flag SCH_STATUS_FLAG s1)))"

subsection \<open>\<^verbatim>\<open>scheduler_add_task\<close>\<close>

text \<open>
  The duplicate scan compares the new callback with the \<^verbatim>\<open>ptask\<close> of every slot, active
  or not, and breaks at the first equal one with the create flag set and the error code.
\<close>

function add_scan :: "nat \<Rightarrow> callback_task_t \<Rightarrow> nat \<Rightarrow> int \<times> sched \<Rightarrow> int \<times> sched" where
  "add_scan n task i (ret, s) =
     (if i < n then
        (if ptask (task_array s i) = task
         then (SCH_ERROR, set_flag SCH_TASK_CREATE_FLAG s)
         else add_scan n task (i + 1) (ret, s))
      else (ret, s))"
  by pat_completeness auto
termination
  by (relation "measure (\<lambda>(n, task, i, rs). n - i)") auto

definition scheduler_add_task ::
  "nat \<Rightarrow> callback_task_t \<Rightarrow> string option \<Rightarrow> nat \<Rightarrow> 32 word \<Rightarrow> 32 word \<Rightarrow> sched \<Rightarrow> int \<times> sched"
where
  "scheduler_add_task n task name task_param dly per s =
     (if unat (tasks_counter s) < n then
        (case add_scan n task 0 (SCH_STATUS_OK, s) of
           (ret, s1) \<Rightarrow>
             if SCH_STATUS_OK = ret then
               (let c = tasks_counter s1;
                    t = \<lparr>ptask = task, task_name = name, delay = dly, period = per,
                         status = (if 0 = per then RUN_ALWAYS else STOPPED),
                         task_handler = \<lparr>index = c, parameter = task_param\<rparr>\<rparr>
                in (ret, clear_flag SCH_TASK_CREATE_FLAG
                           ((put_task (unat c) t s1)\<lparr>tasks_counter := c + 1\<rparr>)))
             else (ret, s1))
      else (SCH_ERROR, set_flag SCH_STATUS_FLAG (set_flag SCH_TASK_CREATE_FLAG s)))"

subsection \<open>\<^verbatim>\<open>scheduler_dispatch_task\<close>\<close>

text \<open>
  A callback is C code of the application: it receives the address of the handler of its
  slot and may change the scheduler's variables, for instance its own status. Its effect
  is the parameter \<open>cb\<close>, a function of the function pointer, the index of the slot whose
  handler is passed, and the state. The dispatcher's calls are recorded in a log of pairs
  of slot index and function pointer, so that the number of calls can be counted.
\<close>

type_synonym callbacks = "callback_task_t \<Rightarrow> nat \<Rightarrow> sched \<Rightarrow> sched"
type_synonym call_log = "(nat \<times> callback_task_t) list"

definition call_task :: "callbacks \<Rightarrow> nat \<Rightarrow> sched \<times> call_log \<Rightarrow> fault + sched \<times> call_log" where
  "call_task cb i st =
     (case st of (s, lg) \<Rightarrow>
        let p = ptask (task_array s i)
        in if p = NULL then Inl NullCall else Inr (cb p i s, lg @ [(i, p)]))"

definition set_status :: "nat \<Rightarrow> task_status_t \<Rightarrow> sched \<Rightarrow> sched" where
  "set_status i v s = put_task i ((task_array s i)\<lparr>status := v\<rparr>) s"

text \<open>The second \<^verbatim>\<open>if\<close> of the loop body: the slot is \<^verbatim>\<open>READY\<close>.\<close>

definition dispatch_ready :: "nat \<Rightarrow> callbacks \<Rightarrow> nat \<Rightarrow> sched \<times> call_log \<Rightarrow> fault + sched \<times> call_log" where
  "dispatch_ready n cb i st =
     (case st of (s, lg) \<Rightarrow>
        (case call_task cb i (set_status i RUNNING s, lg) of
           Inl f \<Rightarrow> Inl f
         | Inr (s1, lg1) \<Rightarrow>
             let s2 = (if RUNNING = status (task_array s1 i) then set_status i STOPPED s1 else s1)
             in if 0 = period (task_array s2 i) then
                  (case scheduler_delete_task n i s2 of
                     Inl f \<Rightarrow> Inl f
                   | Inr (r, s3) \<Rightarrow> Inr (s3, lg1))
                else Inr (s2, lg1)))"

text \<open>One iteration of the loop: both \<^verbatim>\<open>if\<close> statements, in the order of the source.\<close>

definition dispatch_body :: "nat \<Rightarrow> callbacks \<Rightarrow> nat \<Rightarrow> sched \<times> call_log \<Rightarrow> fault + sched \<times> call_log" where
  "dispatch_body n cb i st =
     (if \<not> i < n then Inl OutOfBounds
      else
        (case (if status (task_array (fst st) i) = RUN_ALWAYS then call_task cb i st
               else Inr st) of
           Inl f \<Rightarrow> Inl f
         | Inr st1 \<Rightarrow>
             if status (task_array (fst st1) i) = READY then dispatch_ready n cb i st1
             else Inr st1))"

text \<open>
  The loop runs while \<^verbatim>\<open>index < tasks_counter\<close>, with the counter read again at every
  iteration. The index stays below \<open>2 ^ 32\<close>, since it is below a \<^verbatim>\<open>uint32_t\<close>, so its
  increment does not wrap.
\<close>

function dispatch_loop :: "nat \<Rightarrow> callbacks \<Rightarrow> nat \<Rightarrow> sched \<times> call_log \<Rightarrow> fault + sched \<times> call_log" where
  "dispatch_loop n cb i st =
     (if i < unat (tasks_counter (fst st)) then
        (case dispatch_body n cb i st of
           Inl f \<Rightarrow> Inl f
         | Inr st1 \<Rightarrow> dispatch_loop n cb (i + 1) st1)
      else Inr st)"
  by pat_completeness auto
termination
proof (relation "measure (\<lambda>(n, cb, i, st). 2 ^ 32 - i)", goal_cases)
  case 1
  show ?case by simp
next
  case (2 n cb i st st1)
  have "unat (tasks_counter (fst st)) < 2 ^ 32"
    using unsigned_less [of "tasks_counter (fst st)", where ?'a = nat] by simp
  with 2 show ?case by simp
qed

definition scheduler_dispatch_task :: "nat \<Rightarrow> callbacks \<Rightarrow> sched \<Rightarrow> fault + sched \<times> call_log" where
  "scheduler_dispatch_task n cb s = dispatch_loop n cb 0 (s, [])"

subsection \<open>The state at program start, and runs of the interface\<close>

text \<open>
  Modelled from the spec: the C program starts with the three variables zero-initialised,
  and \<^verbatim>\<open>scheduler.h\<close>, which fixes the numbering of the status enumeration, is not
  among the sources. The status of a zero-initialised slot is taken to be \<^verbatim>\<open>STOPPED\<close>,
  the neutral value of the specification.
\<close>

definition empty_task :: task_t where
  "empty_task = \<lparr>ptask = NULL, task_name = None, delay = 0, period = 0, status = STOPPED,
                  task_handler = \<lparr>index = 0, parameter = NULL\<rparr>\<rparr>"

definition boot :: sched where
  "boot = \<lparr>tasks_counter = 0, scheduler_status = 0, task_array = (\<lambda>i. empty_task)\<rparr>"

text \<open>The freshly initialized scheduler: \<^verbatim>\<open>scheduler_init\<close> called at program start.\<close>

definition fresh :: "nat \<Rightarrow> sched" where
  "fresh n = (case scheduler_init n boot of Inl f \<Rightarrow> boot | Inr (r, s) \<Rightarrow> s)"

text \<open>A callback that leaves the scheduler's variables alone.\<close>

definition no_effect :: callbacks where
  "no_effect p i s = s"

text \<open>
  A callback that only observes: it writes into \<^verbatim>\<open>scheduler_status\<close> whether it found
  the status of its slot to be \<^verbatim>\<open>RUNNING\<close>.
\<close>

definition probe :: callbacks where
  "probe p i s =
     s\<lparr>scheduler_status := (if status (task_array s i) = RUNNING then 1 else 0)\<rparr>"

text \<open>
  The calls a client can make: initialize, register, remove, tick and dispatch. A run
  stops at the first fault.
\<close>

datatype op =
    Init
  | Add callback_task_t "string option" nat "32 word" "32 word"
  | Delete nat
  | Tick
  | Dispatch

fun run_op :: "nat \<Rightarrow> callbacks \<Rightarrow> op \<Rightarrow> sched \<Rightarrow> fault + sched" where
  "run_op n cb Init s =
     (case scheduler_init n s of Inl f \<Rightarrow> Inl f | Inr (r, s') \<Rightarrow> Inr s')"
| "run_op n cb (Add task name task_param dly per) s =
     Inr (snd (scheduler_add_task n task name task_param dly per s))"
| "run_op n cb (Delete i) s =
     (case scheduler_delete_task n i s of Inl f \<Rightarrow> Inl f | Inr (r, s') \<Rightarrow> Inr s')"
| "run_op n cb Tick s = Inr (snd (scheduler_update n s))"
| "run_op n cb Dispatch s =
     (case scheduler_dispatch_task n cb s of Inl f \<Rightarrow> Inl f | Inr (s', lg) \<Rightarrow> Inr s')"

fun run_ops :: "nat \<Rightarrow> callbacks \<Rightarrow> op list \<Rightarrow> sched \<Rightarrow> fault + sched" where
  "run_ops n cb [] s = Inr s"
| "run_ops n cb (x # xs) s =
     (case run_op n cb x s of Inl f \<Rightarrow> Inl f | Inr s' \<Rightarrow> run_ops n cb xs s')"

text \<open>\<open>k\<close> consecutive ticks.\<close>

fun ticks :: "nat \<Rightarrow> nat \<Rightarrow> sched \<Rightarrow> sched" where
  "ticks n 0 s = s"
| "ticks n (Suc k) s = snd (scheduler_update n (ticks n k s))"

subsection \<open>Kinds of calls\<close>

text \<open>
  Register and remove calls; ticks and dispatch passes; and every call but a second
  initialization.
\<close>

fun reg_op :: "op \<Rightarrow> bool" where
  "reg_op (Add task name task_param dly per) = True"
| "reg_op (Delete i) = True"
| "reg_op x = False"

fun pass_op :: "op \<Rightarrow> bool" where
  "pass_op Tick = True"
| "pass_op Dispatch = True"
| "pass_op x = False"

fun live_op :: "op \<Rightarrow> bool" where
  "live_op Init = False"
| "live_op x = True"

text \<open>Registrations of a given callback that are periodic only with a delay within the period.\<close>

fun within_period :: "callback_task_t \<Rightarrow> op \<Rightarrow> bool" where
  "within_period task (Add task' name task_param dly per) =
     (task' = task \<longrightarrow> per = 0 \<or> dly \<le> per)"
| "within_period task x = True"

subsection \<open>Invariants of the table\<close>

text \<open>
  The active slots are those with a callback. Two facts hold of every state the interface
  reaches from program start. First, there are at most \<^verbatim>\<open>tasks_counter\<close> active slots,
  and an inactive slot has the status, delay and handler that \<^verbatim>\<open>scheduler_delete_task\<close>
  leaves. Second, as long as the scheduler is not initialized again, the counter stays
  within the table and an active task with period 0 is \<^verbatim>\<open>RUN_ALWAYS\<close>.
\<close>

definition active :: "nat \<Rightarrow> sched \<Rightarrow> nat set" where
  "active n s = {i \<in> {..<n}. ptask (task_array s i) \<noteq> NULL}"

definition neutral :: "task_t \<Rightarrow> bool" where
  "neutral t \<longleftrightarrow>
     status t = STOPPED \<and> delay t = 0 \<and> task_handler t = \<lparr>index = 0, parameter = NULL\<rparr>"

definition table_inv :: "nat \<Rightarrow> sched \<Rightarrow> bool" where
  "table_inv n s \<longleftrightarrow>
     card (active n s) \<le> unat (tasks_counter s) \<and>
     (\<forall>i<n. ptask (task_array s i) = NULL \<longrightarrow> neutral (task_array s i))"

definition always_inv :: "nat \<Rightarrow> sched \<Rightarrow> bool" where
  "always_inv n s \<longleftrightarrow>
     (\<forall>i<n. ptask (task_array s i) \<noteq> NULL \<and> period (task_array s i) = 0 \<longrightarrow>
        status (task_array s i) = RUN_ALWAYS)"

definition steady :: "nat \<Rightarrow> sched \<Rightarrow> bool" where
  "steady n s \<longleftrightarrow> table_inv n s \<and> unat (tasks_counter s) \<le> n \<and> always_inv n s"

text \<open>
  Every active slot that holds a given callback with a positive period has its delay
  within the period.
\<close>

definition timely :: "callback_task_t \<Rightarrow> nat \<Rightarrow> sched \<Rightarrow> bool" where
  "timely task n s \<longleftrightarrow>
     (\<forall>i<n. ptask (task_array s i) = task \<and> 0 < period (task_array s i) \<longrightarrow>
        delay (task_array s i) \<le> period (task_array s i))"

subsection \<open>Example states\<close>

definition tick_example :: sched where
  "tick_example =
     put_task 0 (empty_task\<lparr>ptask := 7, delay := 0, period := 5\<rparr>)
       (put_task 1 (empty_task\<lparr>ptask := 8, delay := 3, period := 5\<rparr>) boot)"

definition ready_example :: sched where
  "ready_example =
     (put_task 0 (empty_task\<lparr>ptask := 7, period := 5, delay := 5, status := READY\<rparr>) boot)
       \<lparr>tasks_counter := 1\<rparr>"

definition late_example :: sched where
  "late_example = snd (scheduler_add_task 4 8 (Some ''B'') 0 2 5 (fresh 4))"

definition long_delay_example :: sched where
  "long_delay_example = snd (scheduler_add_task 4 8 (Some ''B'') 0 10 5 (fresh 4))"

definition stale_ops :: "op list" where
  "stale_ops = [Add 8 (Some ''B'') 0 3 5, Delete 0]"

definition stale_example :: sched where
  "stale_example =
     \<lparr>tasks_counter = 0, scheduler_status = 0,
      task_array = (\<lambda>i. empty_task)(0 := empty_task\<lparr>task_name := Some ''B'', period := 5\<rparr>)\<rparr>"

definition gap_ops :: "op list" where
  "gap_ops = [Add 7 (Some ''A'') 0 0 1, Add 8 (Some ''B'') 0 0 1, Delete 0]"

definition gap_example :: sched where
  "gap_example = (case run_ops 2 no_effect gap_ops (fresh 2) of Inl f \<Rightarrow> boot | Inr s \<Rightarrow> s)"

definition always_ops :: "op list" where
  "always_ops = [Add 7 (Some ''A'') 0 0 1, Add 8 (Some ''B'') 0 0 0, Delete 0]"

definition always_example :: sched where
  "always_example =
     (case run_ops 2 no_effect always_ops (fresh 2) of Inl f \<Rightarrow> boot | Inr s \<Rightarrow> s)"

definition full_ops :: "op list" where
  "full_ops = [Add 7 (Some ''A'') 0 0 1, Add 8 (Some ''B'') 0 0 1]"

definition full_example :: sched where
  "full_example = (case run_ops 2 no_effect full_ops (fresh 2) of Inl f \<Rightarrow> boot | Inr s \<Rightarrow> s)"

definition ready_result :: sched where
  "ready_result =
     ready_example\<lparr>scheduler_status := 1,
       task_array := (task_array ready_example)
         (0 := (task_array ready_example 0)\<lparr>status := STOPPED\<rparr>)\<rparr>"

definition late_ops :: "op list" where
  "late_ops = [Add 8 (Some ''B'') 0 2 5]"

definition periodic_ops :: "op list" where
  "periodic_ops = [Add 8 (Some ''B'') 0 2 5, Tick, Tick, Tick, Dispatch, Tick]"

definition periodic_example :: sched where
  "periodic_example =
     (case run_ops 4 no_effect periodic_ops (fresh 4) of Inl f \<Rightarrow> boot | Inr s \<Rightarrow> s)"



section \<open>Properties of the loops\<close>

declare update_loop.simps [simp del]
declare init_loop.simps [simp del]
declare add_scan.simps [simp del]
declare dispatch_loop.simps [simp del]

subsection \<open>The tick\<close>

lemma update_loop_array:
  "task_array (update_loop n k s) i =
     (if k \<le> i \<and> i < n then update_task (task_array s i) else task_array s i)"
proof (induction n k s rule: update_loop.induct)
  case (1 n k s)
  show ?case
  proof (cases "k < n")
    case True
    with 1 show ?thesis
      by (subst update_loop.simps) (auto simp: put_task_def)
  next
    case False
    then show ?thesis by (subst update_loop.simps) auto
  qed
qed

lemma update_loop_counter: "tasks_counter (update_loop n k s) = tasks_counter s"
  by (induction n k s rule: update_loop.induct)
     (subst update_loop.simps, simp add: put_task_def)

lemma update_loop_flags: "scheduler_status (update_loop n k s) = scheduler_status s"
  by (induction n k s rule: update_loop.induct)
     (subst update_loop.simps, simp add: put_task_def)

lemma tick_array:
  "task_array (snd (scheduler_update n s)) i =
     (if i < n then update_task (task_array s i) else task_array s i)"
  by (simp add: scheduler_update_def update_loop_array)

lemma tick_counter: "tasks_counter (snd (scheduler_update n s)) = tasks_counter s"
  by (simp add: scheduler_update_def update_loop_counter)

lemma update_task_ptask: "ptask (update_task t) = ptask t"
  by (simp add: update_task_def Let_def)

lemma update_task_period: "period (update_task t) = period t"
  by (simp add: update_task_def Let_def)

lemma update_task_inactive: "ptask t = NULL \<Longrightarrow> update_task t = t"
  by (simp add: update_task_def)

lemma update_task_always:
  "status t = RUN_ALWAYS \<Longrightarrow> status (update_task t) = RUN_ALWAYS"
  by (simp add: update_task_def Let_def)

lemma unat_pred: "Suc (unat (d - 1)) = unat d" if "d \<noteq> 0" for d :: "32 word"
proof -
  from that have "0 < unat d" by (simp add: unat_gt_0)
  moreover from that have "unat (d - 1) = unat d - 1" by (rule unat_minus_one)
  ultimately show ?thesis by simp
qed


lemma ticks_counter: "tasks_counter (ticks n m s) = tasks_counter s"
  by (induction m) (simp_all add: tick_counter)


lemma periodic_step:
  assumes "ptask t \<noteq> NULL" and "0 < period t" and "delay t \<le> period t"
  shows "ptask (update_task t) = ptask t" and "period (update_task t) = period t"
    and "delay (update_task t) \<le> period t"
    and "delay (update_task t) = (if delay t = 0 then period t else delay t - 1)"
    and "(delay (update_task t) = period t) = (delay t = 0)"
proof -
  show "ptask (update_task t) = ptask t" "period (update_task t) = period t"
    by (simp_all add: update_task_def Let_def)
  show eq: "delay (update_task t) = (if delay t = 0 then period t else delay t - 1)"
    using assms by (simp add: update_task_def Let_def)
  have lt: "unat (delay t - 1) < unat (period t)" if "delay t \<noteq> 0"
    using unat_pred [OF that] assms(3) by (simp add: word_le_nat_alt)
  then show "delay (update_task t) \<le> period t"
    unfolding eq by (auto simp: word_le_nat_alt)
  from lt show "(delay (update_task t) = period t) = (delay t = 0)"
    unfolding eq by auto
qed

lemma periodic_run:
  assumes "ptask t \<noteq> NULL" and "0 < period t" and "delay t \<le> period t"
  shows "ptask ((update_task ^^ m) t) = ptask t \<and> period ((update_task ^^ m) t) = period t \<and>
         delay ((update_task ^^ m) t) \<le> period t"
proof (induction m)
  case 0
  from assms show ?case by simp
next
  case (Suc m)
  then have a: "ptask ((update_task ^^ m) t) \<noteq> NULL" "0 < period ((update_task ^^ m) t)"
    "delay ((update_task ^^ m) t) \<le> period ((update_task ^^ m) t)"
    using assms by simp_all
  from periodic_step(1-3) [OF a] Suc show ?case by simp
qed

subsection \<open>Registration\<close>

lemma add_scan_table:
  "tasks_counter (snd (add_scan n task k (ret, s))) = tasks_counter s \<and>
   task_array (snd (add_scan n task k (ret, s))) = task_array s"
proof (induction n task k "(ret, s)" rule: add_scan.induct)
  case (1 n task k)
  show ?case
    using 1 by (subst add_scan.simps, subst (2) add_scan.simps) (simp add: set_flag_def)
qed

lemma add_scan_hit:
  "k \<le> i \<Longrightarrow> i < n \<Longrightarrow> ptask (task_array s i) = task \<Longrightarrow>
   fst (add_scan n task k (ret, s)) = SCH_ERROR"
proof (induction n task k "(ret, s)" rule: add_scan.induct)
  case (1 n task k)
  show ?case
  proof (cases "ptask (task_array s k) = task")
    case True
    with 1 show ?thesis by (subst add_scan.simps) simp
  next
    case False
    with 1 have "k \<noteq> i" by auto
    with 1 have "Suc k \<le> i" by simp
    with 1 False show ?thesis by (subst add_scan.simps) simp
  qed
qed

lemma add_scan_miss:
  "(\<And>i. k \<le> i \<Longrightarrow> i < n \<Longrightarrow> ptask (task_array s i) \<noteq> task) \<Longrightarrow>
   add_scan n task k (ret, s) = (ret, s)"
proof (induction n task k "(ret, s)" rule: add_scan.induct)
  case (1 n task k)
  show ?case
  proof (cases "k < n")
    case True
    with 1 show ?thesis by (subst add_scan.simps) simp
  next
    case False
    then show ?thesis by (subst add_scan.simps) simp
  qed
qed

lemma add_success:
  assumes "fst (scheduler_add_task n task name prm d p s) = SCH_STATUS_OK"
  shows "unat (tasks_counter s) < n"
    and "snd (scheduler_add_task n task name prm d p s) =
           clear_flag SCH_TASK_CREATE_FLAG
             ((put_task (unat (tasks_counter s))
                 \<lparr>ptask = task, task_name = name, delay = d, period = p,
                  status = (if 0 = p then RUN_ALWAYS else STOPPED),
                  task_handler = \<lparr>index = tasks_counter s, parameter = prm\<rparr>\<rparr> s)
              \<lparr>tasks_counter := tasks_counter s + 1\<rparr>)"
    and "\<And>i. i < n \<Longrightarrow> ptask (task_array s i) \<noteq> task"
proof -
  show lt: "unat (tasks_counter s) < n"
    using assms by (auto simp: scheduler_add_task_def SCH_ERROR_def SCH_STATUS_OK_def split: if_splits)
  show nodup: "ptask (task_array s i) \<noteq> task" if "i < n" for i
  proof
    assume "ptask (task_array s i) = task"
    with that have "fst (add_scan n task 0 (SCH_STATUS_OK, s)) = SCH_ERROR"
      by (intro add_scan_hit) auto
    with assms lt show False
      by (auto simp: scheduler_add_task_def SCH_ERROR_def SCH_STATUS_OK_def split: prod.splits)
  qed
  have "add_scan n task 0 (SCH_STATUS_OK, s) = (SCH_STATUS_OK, s)"
    by (rule add_scan_miss) (use nodup in auto)
  with lt show "snd (scheduler_add_task n task name prm d p s) =
           clear_flag SCH_TASK_CREATE_FLAG
             ((put_task (unat (tasks_counter s))
                 \<lparr>ptask = task, task_name = name, delay = d, period = p,
                  status = (if 0 = p then RUN_ALWAYS else STOPPED),
                  task_handler = \<lparr>index = tasks_counter s, parameter = prm\<rparr>\<rparr> s)
              \<lparr>tasks_counter := tasks_counter s + 1\<rparr>)"
    by (simp add: scheduler_add_task_def Let_def)
qed

lemma add_fresh_slot:
  assumes "unat (tasks_counter s) < n" and "\<And>i. i < n \<Longrightarrow> ptask (task_array s i) \<noteq> task"
  shows "fst (scheduler_add_task n task name prm d p s) = SCH_STATUS_OK"
proof -
  have "add_scan n task 0 (SCH_STATUS_OK, s) = (SCH_STATUS_OK, s)"
    by (rule add_scan_miss) (use assms in auto)
  with assms(1) show ?thesis by (simp add: scheduler_add_task_def Let_def)
qed

lemma add_success_array:
  assumes "fst (scheduler_add_task n task name prm d p s) = SCH_STATUS_OK"
  shows "task_array (snd (scheduler_add_task n task name prm d p s)) =
           (task_array s)(unat (tasks_counter s) :=
                 \<lparr>ptask = task, task_name = name, delay = d, period = p,
                  status = (if 0 = p then RUN_ALWAYS else STOPPED),
                  task_handler = \<lparr>index = tasks_counter s, parameter = prm\<rparr>\<rparr>)"
  by (simp add: add_success(2) [OF assms] clear_flag_def put_task_def)

lemma add_failure:
  assumes "fst (scheduler_add_task n task name prm d p s) \<noteq> SCH_STATUS_OK"
  shows "tasks_counter (snd (scheduler_add_task n task name prm d p s)) = tasks_counter s"
    and "task_array (snd (scheduler_add_task n task name prm d p s)) = task_array s"
proof -
  obtain ret s1 where sc: "add_scan n task 0 (SCH_STATUS_OK, s) = (ret, s1)"
    by (cases "add_scan n task 0 (SCH_STATUS_OK, s)")
  from add_scan_table [of n task 0 SCH_STATUS_OK s] sc
  have same: "tasks_counter s1 = tasks_counter s" "task_array s1 = task_array s" by simp_all
  from assms sc same
  show "tasks_counter (snd (scheduler_add_task n task name prm d p s)) = tasks_counter s"
    by (auto simp: scheduler_add_task_def set_flag_def Let_def split: if_splits)
  from assms sc same
  show "task_array (snd (scheduler_add_task n task name prm d p s)) = task_array s"
    by (auto simp: scheduler_add_task_def set_flag_def Let_def split: if_splits)
qed

lemma unat_counter_succ:
  fixes c :: "32 word"
  assumes "unat c < n" and "n < 2 ^ 32"
  shows "unat (c + 1) = Suc (unat c)"
proof -
  from assms have "unat c + unat (1 :: 32 word) < 2 ^ LENGTH(32)" by simp
  then have "unat (c + 1) = unat c + unat (1 :: 32 word)" by (simp only: unat_add_lem [THEN iffD1])
  then show ?thesis by simp
qed

subsection \<open>Removal and initialization\<close>

lemma delete_in_range:
  "i < n \<Longrightarrow> \<exists>s'. scheduler_delete_task n i s = Inr (SCH_STATUS_OK, s') \<and> ptask (task_array s' i) = NULL"
  by (simp add: scheduler_delete_task_def put_task_def clear_task_def)

lemma delete_inactive:
  "i < n \<Longrightarrow> ptask (task_array s i) = NULL \<Longrightarrow> scheduler_delete_task n i s = Inr (SCH_STATUS_OK, s)"
  by (simp add: scheduler_delete_task_def)

lemma delete_active:
  assumes "i < n" and "ptask (task_array s i) \<noteq> NULL"
  shows "scheduler_delete_task n i s =
           Inr (SCH_STATUS_OK,
             (put_task i (clear_task (task_array s i)) s)\<lparr>tasks_counter := tasks_counter s - 1\<rparr>)"
  using assms by (simp add: scheduler_delete_task_def)

lemma init_loop_idle:
  "(\<And>i. k \<le> i \<Longrightarrow> i < n \<Longrightarrow> ptask (task_array s i) = NULL) \<Longrightarrow>
   init_loop n k s = Inr (SCH_STATUS_OK, s)"
proof (induction n k s rule: init_loop.induct)
  case (1 n k s)
  show ?case
  proof (cases "k < n")
    case True
    with 1(2) have d: "scheduler_delete_task n k s = Inr (SCH_STATUS_OK, s)"
      by (intro delete_inactive) auto
    have "init_loop n (k + 1) s = Inr (SCH_STATUS_OK, s)"
      using True d 1(2) by (intro 1(1) [OF True d]) auto
    with True d show ?thesis by (subst init_loop.simps) simp
  next
    case False
    then show ?thesis by (subst init_loop.simps) simp
  qed
qed

lemma init_loop_result:
  "\<exists>s'. init_loop n k s = Inr (SCH_STATUS_OK, s') \<and>
     (\<forall>i. task_array s' i =
        (if k \<le> i \<and> i < n \<and> ptask (task_array s i) \<noteq> NULL
         then clear_task (task_array s i) else task_array s i))"
proof (induction n k s rule: init_loop.induct)
  case (1 n k s)
  show ?case
  proof (cases "k < n")
    case False
    then show ?thesis by (subst init_loop.simps) auto
  next
    case True
    define s1 where "s1 = (if ptask (task_array s k) \<noteq> NULL
      then (put_task k (clear_task (task_array s k)) s)\<lparr>tasks_counter := tasks_counter s - 1\<rparr>
      else s)"
    have d: "scheduler_delete_task n k s = Inr (SCH_STATUS_OK, s1)"
      using True by (simp add: scheduler_delete_task_def s1_def)
    have "SCH_STATUS_OK = SCH_STATUS_OK" ..
    from 1 [OF True d] obtain s' where
      s': "init_loop n (k + 1) s1 = Inr (SCH_STATUS_OK, s')"
        "\<And>i. task_array s' i =
          (if k + 1 \<le> i \<and> i < n \<and> ptask (task_array s1 i) \<noteq> NULL
           then clear_task (task_array s1 i) else task_array s1 i)"
      by auto
    have "init_loop n k s = Inr (SCH_STATUS_OK, s')"
      using True d s'(1) by (subst init_loop.simps) simp
    moreover have "task_array s' i =
        (if k \<le> i \<and> i < n \<and> ptask (task_array s i) \<noteq> NULL
         then clear_task (task_array s i) else task_array s i)" for i
      using True by (auto simp: s'(2) s1_def put_task_def)
    ultimately show ?thesis by blast
  qed
qed

lemma scheduler_init_result:
  "\<exists>s'. scheduler_init n s = Inr (SCH_STATUS_OK, s') \<and>
     (\<forall>i. task_array s' i =
        (if i < n \<and> ptask (task_array s i) \<noteq> NULL
         then clear_task (task_array s i) else task_array s i))"
proof -
  from init_loop_result [of n 0 "s\<lparr>tasks_counter := 0, scheduler_status := 0\<rparr>"]
  obtain s1 where
    s1: "init_loop n 0 (s\<lparr>tasks_counter := 0, scheduler_status := 0\<rparr>) = Inr (SCH_STATUS_OK, s1)"
      "\<And>i. task_array s1 i =
        (if i < n \<and> ptask (task_array s i) \<noteq> NULL
         then clear_task (task_array s i) else task_array s i)"
    by auto
  then show ?thesis
    by (simp add: scheduler_init_def clear_flag_def)
qed

lemma fresh_boot: "fresh n = boot"
proof -
  have "boot\<lparr>tasks_counter := 0, scheduler_status := 0\<rparr> = boot"
    by (simp add: boot_def)
  moreover have "init_loop n 0 boot = Inr (SCH_STATUS_OK, boot)"
    by (rule init_loop_idle) (simp add: boot_def empty_task_def)
  ultimately show ?thesis
    by (simp add: fresh_def scheduler_init_def clear_flag_def BIT_CLEAR_def boot_def)
qed

lemma add_on_boot:
  "0 < n \<Longrightarrow> task \<noteq> NULL \<Longrightarrow> fst (scheduler_add_task n task name prm d p boot) = SCH_STATUS_OK"
  by (rule add_fresh_slot) (simp_all add: boot_def empty_task_def)

lemma delete_slot_cleared:
  assumes "i < n" and "ptask (task_array s i) \<noteq> NULL"
    and "scheduler_delete_task n i s = Inr (r, s')"
  shows "status (task_array s' i) = STOPPED" and "delay (task_array s' i) = 0"
    and "tasks_counter s' = tasks_counter s - 1"
  using assms by (auto simp: scheduler_delete_task_def put_task_def clear_task_def)

lemma delete_keeps_period_name:
  assumes "i < n"
  shows "\<exists>s'. scheduler_delete_task n i s = Inr (SCH_STATUS_OK, s') \<and>
           ptask (task_array s' i) = NULL \<and>
           period (task_array s' i) = period (task_array s i) \<and>
           task_name (task_array s' i) = task_name (task_array s i)"
  using assms by (simp add: scheduler_delete_task_def put_task_def clear_task_def)

subsection \<open>The log of a dispatch pass\<close>

lemma call_task_log:
  "call_task cb i (s, lg) = Inr (s', lg') \<Longrightarrow> lg' = lg @ [(i, ptask (task_array s i))]"
  by (auto simp: call_task_def Let_def split: if_splits)

lemma dispatch_ready_log:
  "dispatch_ready n cb i (s, lg) = Inr (s', lg') \<Longrightarrow> lg' = lg @ [(i, ptask (task_array s i))]"
  by (auto simp: dispatch_ready_def call_task_def set_status_def put_task_def Let_def
           split: if_splits sum.splits prod.splits)

lemma dispatch_body_log:
  assumes "dispatch_body n cb i (s, lg) = Inr (s', lg')"
  shows "\<exists>ext. lg' = lg @ ext \<and> (\<forall>e\<in>set ext. fst e = i)"
proof -
  from assms have "i < n" by (auto simp: dispatch_body_def split: if_splits)
  obtain s1 lg1 where
    a: "(if status (task_array s i) = RUN_ALWAYS then call_task cb i (s, lg) else Inr (s, lg))
          = Inr (s1, lg1)"
    and b: "(if status (task_array s1 i) = READY then dispatch_ready n cb i (s1, lg1)
             else Inr (s1, lg1)) = Inr (s', lg')"
    using assms \<open>i < n\<close> by (auto simp: dispatch_body_def split: sum.splits)
  from a have "\<exists>e1. lg1 = lg @ e1 \<and> (\<forall>e\<in>set e1. fst e = i)"
    by (auto split: if_splits dest!: call_task_log)
  moreover from b have "\<exists>e2. lg' = lg1 @ e2 \<and> (\<forall>e\<in>set e2. fst e = i)"
    by (auto split: if_splits dest!: dispatch_ready_log)
  ultimately show ?thesis by auto
qed

lemma dispatch_loop_log:
  "dispatch_loop n cb j st = Inr st' \<Longrightarrow>
   \<exists>ext. snd st' = snd st @ ext \<and> (\<forall>e\<in>set ext. j \<le> fst e)"
proof (induction n cb j st rule: dispatch_loop.induct)
  case (1 n cb j st)
  show ?case
  proof (cases "j < unat (tasks_counter (fst st))")
    case False
    with 1(2) have "st' = st" by (subst (asm) dispatch_loop.simps) simp
    then show ?thesis by simp
  next
    case True
    with 1(2) obtain st1 where
      b: "dispatch_body n cb j st = Inr st1" and
      l: "dispatch_loop n cb (j + 1) st1 = Inr st'"
      by (subst (asm) dispatch_loop.simps) (auto split: sum.splits)
    from 1(1) [OF True b l] obtain e2 where
      e2: "snd st' = snd st1 @ e2" "\<forall>e\<in>set e2. j + 1 \<le> fst e" by auto
    from b dispatch_body_log [of n cb j "fst st" "snd st" "fst st1" "snd st1"]
    obtain e1 where e1: "snd st1 = snd st @ e1" "\<forall>e\<in>set e1. fst e = j" by auto
    from e1 e2 have "snd st' = snd st @ (e1 @ e2)" by simp
    moreover from e1 e2 have "\<forall>e\<in>set (e1 @ e2). j \<le> fst e" by auto
    ultimately show ?thesis by blast
  qed
qed

lemma dispatch_body_ready:
  assumes "i < n" and "status (task_array s i) = READY" and "ptask (task_array s i) \<noteq> NULL"
  shows "dispatch_body n cb i (s, lg) = dispatch_ready n cb i (s, lg)"
  using assms by (simp add: dispatch_body_def)

lemma dispatch_body_bounds:
  "\<not> i < n \<Longrightarrow> dispatch_body n cb i st = Inl OutOfBounds"
  by (simp add: dispatch_body_def)





lemma dispatch_body_keeps:
  assumes "dispatch_body n no_effect i (s, lg) = Inr (s', lg')"
  shows "ptask (task_array s' j) = NULL \<or>
         (ptask (task_array s' j) = ptask (task_array s j) \<and>
          delay (task_array s' j) = delay (task_array s j) \<and>
          period (task_array s' j) = period (task_array s j))"
  using assms
  by (auto simp: dispatch_body_def dispatch_ready_def call_task_def no_effect_def
      set_status_def put_task_def scheduler_delete_task_def clear_task_def Let_def
      split: if_splits)

lemma dispatch_loop_keeps:
  "dispatch_loop n no_effect i st = Inr st' \<Longrightarrow>
   ptask (task_array (fst st') j) = NULL \<or>
   (ptask (task_array (fst st') j) = ptask (task_array (fst st) j) \<and>
    delay (task_array (fst st') j) = delay (task_array (fst st) j) \<and>
    period (task_array (fst st') j) = period (task_array (fst st) j))"
proof (induction n no_effect i st rule: dispatch_loop.induct)
  case (1 n i st)
  have unf: "dispatch_loop n no_effect i st =
      (if i < unat (tasks_counter (fst st)) then
         (case dispatch_body n no_effect i st of
            Inl f \<Rightarrow> Inl f
          | Inr st1 \<Rightarrow> dispatch_loop n no_effect (i + 1) st1)
       else Inr st)"
    by (rule dispatch_loop.simps)
  show ?case
  proof (cases "i < unat (tasks_counter (fst st))")
    case False
    with 1(2) have "st' = st" by (simp add: unf)
    then show ?thesis by simp
  next
    case True
    with 1(2) obtain st1 where
      b: "dispatch_body n no_effect i st = Inr st1" and
      l: "dispatch_loop n no_effect (i + 1) st1 = Inr st'"
      by (auto simp: unf split: sum.splits)
    from b have "dispatch_body n no_effect i (fst st, snd st) = Inr (fst st1, snd st1)" by simp
    from dispatch_body_keeps [OF this, of j] 1(1) [OF True b l] show ?thesis by auto
  qed
qed

subsection \<open>The invariant of the table\<close>

lemma finite_active [simp]: "finite (active n s)"
  by (simp add: active_def)

lemma active_card_le: "card (active n s) \<le> n"
proof -
  have "active n s \<subseteq> {..<n}" by (auto simp: active_def)
  then have "card (active n s) \<le> card {..<n}" by (intro card_mono) simp_all
  then show ?thesis by simp
qed

lemma active_full:
  assumes "\<And>i. i < n \<Longrightarrow> ptask (task_array s i) \<noteq> NULL"
  shows "card (active n s) = n"
proof -
  from assms have "active n s = {..<n}" by (auto simp: active_def)
  then show ?thesis by simp
qed

lemma active_member: "i < n \<Longrightarrow> ptask (task_array s i) \<noteq> NULL \<Longrightarrow> i \<in> active n s"
  by (simp add: active_def)

lemma table_inv_boot: "table_inv n boot"
  by (simp add: table_inv_def active_def boot_def empty_task_def neutral_def)

lemma table_inv_flags:
  "table_inv n (s\<lparr>scheduler_status := f\<rparr>) = table_inv n s"
  by (simp add: table_inv_def active_def)

lemma table_inv_tick:
  assumes "table_inv n s"
  shows "table_inv n (snd (scheduler_update n s))"
proof -
  have "active n (snd (scheduler_update n s)) = active n s"
    by (auto simp: active_def tick_array update_task_ptask)
  moreover have "neutral (task_array (snd (scheduler_update n s)) i)"
    if "i < n" "ptask (task_array (snd (scheduler_update n s)) i) = NULL" for i
  proof -
    from that have "ptask (task_array s i) = NULL" by (simp add: tick_array update_task_ptask)
    with that assms show ?thesis
      by (simp add: tick_array update_task_inactive table_inv_def)
  qed
  ultimately show ?thesis using assms by (simp add: table_inv_def tick_counter)
qed

lemma counter_positive:
  assumes "table_inv n s" and "i < n" and "ptask (task_array s i) \<noteq> NULL"
  shows "0 < unat (tasks_counter s)"
proof -
  from assms(2,3) have "i \<in> active n s" by (rule active_member)
  then have "0 < card (active n s)" by (auto simp: card_gt_0_iff)
  with assms(1) show ?thesis by (simp add: table_inv_def)
qed

lemma table_inv_delete:
  assumes inv: "table_inv n s" and del: "scheduler_delete_task n i s = Inr (r, s')"
  shows "table_inv n s'"
proof (cases "ptask (task_array s i) \<noteq> NULL")
  case False
  with del have "s' = s" by (auto simp: scheduler_delete_task_def split: if_splits)
  with inv show ?thesis by simp
next
  case True
  from del have lt: "i < n" by (auto simp: scheduler_delete_task_def split: if_splits)
  from del delete_active [OF lt True]
  have s': "s' = (put_task i (clear_task (task_array s i)) s)\<lparr>tasks_counter := tasks_counter s - 1\<rparr>"
    by simp
  have mem: "i \<in> active n s" using lt True by (rule active_member)
  have act: "active n s' = active n s - {i}"
    by (auto simp: s' active_def put_task_def clear_task_def)
  have "card (active n s') = card (active n s) - 1"
    unfolding act using mem by simp
  moreover have pos: "0 < unat (tasks_counter s)" using inv lt True by (rule counter_positive)
  then have "tasks_counter s \<noteq> 0" by (simp add: unat_gt_0)
  then have "unat (tasks_counter s') = unat (tasks_counter s) - 1"
    by (simp add: s' put_task_def unat_minus_one)
  moreover have "neutral (task_array s' j)" if "j < n" "ptask (task_array s' j) = NULL" for j
    using that inv by (auto simp: s' put_task_def clear_task_def neutral_def table_inv_def)
  moreover from inv have "card (active n s) - 1 \<le> unat (tasks_counter s) - 1"
    by (simp add: table_inv_def diff_le_mono)
  ultimately show ?thesis by (simp add: table_inv_def)
qed

lemma add_task_not_null:
  assumes inv: "table_inv n s"
    and ok: "fst (scheduler_add_task n task name prm d p s) = SCH_STATUS_OK"
  shows "task \<noteq> NULL"
proof
  assume null: "task = NULL"
  from add_success(3) [OF ok] null have "\<And>i. i < n \<Longrightarrow> ptask (task_array s i) \<noteq> NULL" by simp
  then have "card (active n s) = n" by (rule active_full)
  with inv have "n \<le> unat (tasks_counter s)" by (simp add: table_inv_def)
  with add_success(1) [OF ok] show False by simp
qed

lemma table_inv_add:
  assumes inv: "table_inv n s" and n: "n < 2 ^ 32"
  shows "table_inv n (snd (scheduler_add_task n task name prm d p s))"
proof (cases "fst (scheduler_add_task n task name prm d p s) = SCH_STATUS_OK")
  case False
  from add_failure [OF False] inv show ?thesis by (simp add: table_inv_def active_def)
next
  case True
  define s' where "s' = snd (scheduler_add_task n task name prm d p s)"
  define k where "k = unat (tasks_counter s)"
  have kn: "k < n" unfolding k_def by (rule add_success(1) [OF True])
  have task: "task \<noteq> NULL" using inv True by (rule add_task_not_null)
  have arr: "ptask (task_array s' j) = (if j = k then task else ptask (task_array s j))" for j
    by (simp add: s'_def k_def add_success_array [OF True])
  have other: "task_array s' j = task_array s j" if "j \<noteq> k" for j
    using that by (simp add: s'_def k_def add_success_array [OF True])
  have cnt: "tasks_counter s' = tasks_counter s + 1"
    by (simp add: s'_def add_success(2) [OF True] clear_flag_def put_task_def)
  have "active n s' = insert k (active n s)"
    using kn task by (auto simp: active_def arr)
  then have "card (active n s') \<le> Suc (card (active n s))"
    by (simp add: card_insert_le_m1 card_insert_if)
  moreover have "unat (tasks_counter s') = Suc (unat (tasks_counter s))"
    unfolding cnt using kn n unfolding k_def by (rule unat_counter_succ)
  moreover have "neutral (task_array s' j)" if "j < n" "ptask (task_array s' j) = NULL" for j
  proof -
    from that(2) task have "j \<noteq> k" by (auto simp: arr)
    with that inv show ?thesis by (simp add: other arr table_inv_def)
  qed
  ultimately show ?thesis using inv unfolding s'_def [symmetric] by (simp add: table_inv_def)
qed

lemma table_inv_init:
  assumes inv: "table_inv n s" and init: "scheduler_init n s = Inr (r, s')"
  shows "table_inv n s'"
proof -
  from scheduler_init_result [of n s] init
  have arr: "\<And>i. task_array s' i =
        (if i < n \<and> ptask (task_array s i) \<noteq> NULL
         then clear_task (task_array s i) else task_array s i)"
    by auto
  have "active n s' = {}"
    by (auto simp: active_def arr clear_task_def)
  moreover have "neutral (task_array s' i)" if "i < n" for i
    using that inv by (auto simp: arr clear_task_def neutral_def table_inv_def)
  ultimately show ?thesis by (simp add: table_inv_def)
qed

lemma table_inv_set_status:
  assumes "table_inv n s" and "ptask (task_array s i) \<noteq> NULL"
  shows "table_inv n (set_status i v s)"
proof -
  have "active n (set_status i v s) = active n s"
    by (auto simp: active_def set_status_def put_task_def)
  moreover have "neutral (task_array (set_status i v s) j)"
    if "j < n" "ptask (task_array (set_status i v s) j) = NULL" for j
  proof -
    from that(2) assms(2) have "j \<noteq> i" by (auto simp: set_status_def put_task_def)
    with that assms(1) show ?thesis by (simp add: set_status_def put_task_def table_inv_def)
  qed
  ultimately show ?thesis using assms(1) by (simp add: table_inv_def set_status_def put_task_def)
qed

lemma table_inv_status_active:
  assumes "table_inv n s" and "i < n"
    and "status (task_array s i) = RUN_ALWAYS \<or> status (task_array s i) = READY"
  shows "ptask (task_array s i) \<noteq> NULL"
proof
  assume "ptask (task_array s i) = NULL"
  with assms(1,2) have "status (task_array s i) = STOPPED"
    by (simp add: table_inv_def neutral_def)
  with assms(3) show False by simp
qed

text \<open>What one iteration of the dispatcher does when callbacks have no effect.\<close>

lemma dispatch_body_no_effect:
  assumes inv: "table_inv n s" and lt: "i < n"
  shows "\<exists>s' lg'. dispatch_body n no_effect i (s, lg) = Inr (s', lg') \<and> table_inv n s' \<and>
           unat (tasks_counter s') \<le> unat (tasks_counter s)"
proof -
  consider (always) "status (task_array s i) = RUN_ALWAYS"
    | (ready) "status (task_array s i) = READY"
    | (other) "status (task_array s i) \<noteq> RUN_ALWAYS" "status (task_array s i) \<noteq> READY"
    by blast
  then show ?thesis
  proof cases
    case always
    with inv lt have "ptask (task_array s i) \<noteq> NULL" by (intro table_inv_status_active) auto
    with always lt have "dispatch_body n no_effect i (s, lg) =
        Inr (s, lg @ [(i, ptask (task_array s i))])"
      by (simp add: dispatch_body_def call_task_def no_effect_def Let_def)
    with inv show ?thesis by simp
  next
    case other
    with lt have "dispatch_body n no_effect i (s, lg) = Inr (s, lg)"
      by (simp add: dispatch_body_def)
    with inv show ?thesis by simp
  next
    case ready
    with inv lt have p: "ptask (task_array s i) \<noteq> NULL" by (intro table_inv_status_active) auto
    define s2 where "s2 = set_status i STOPPED (set_status i RUNNING s)"
    have inv2: "table_inv n s2"
      unfolding s2_def using inv p
      by (intro table_inv_set_status) (simp_all add: set_status_def put_task_def)
    have c2: "tasks_counter s2 = tasks_counter s"
      by (simp add: s2_def set_status_def put_task_def)
    have body: "dispatch_body n no_effect i (s, lg) =
        (if period (task_array s2 i) = 0
         then (case scheduler_delete_task n i s2 of
                 Inl f \<Rightarrow> Inl f
               | Inr (r, s3) \<Rightarrow> Inr (s3, lg @ [(i, ptask (task_array s i))]))
         else Inr (s2, lg @ [(i, ptask (task_array s i))]))"
      using ready lt p
      by (simp add: dispatch_body_def dispatch_ready_def call_task_def no_effect_def Let_def
          s2_def set_status_def put_task_def)
    show ?thesis
    proof (cases "period (task_array s2 i) = 0")
      case False
      with body inv2 c2 show ?thesis by simp
    next
      case True
      have p2: "ptask (task_array s2 i) \<noteq> NULL"
        using p by (simp add: s2_def set_status_def put_task_def)
      define s3 where
        "s3 = (put_task i (clear_task (task_array s2 i)) s2)\<lparr>tasks_counter := tasks_counter s2 - 1\<rparr>"
      have d: "scheduler_delete_task n i s2 = Inr (SCH_STATUS_OK, s3)"
        unfolding s3_def using lt p2 by (rule delete_active)
      have "table_inv n s3" using inv2 d by (rule table_inv_delete)
      moreover have "0 < unat (tasks_counter s2)" using inv2 lt p2 by (rule counter_positive)
      then have "tasks_counter s2 \<noteq> 0" by (simp add: unat_gt_0)
      then have "unat (tasks_counter s3) = unat (tasks_counter s2) - 1"
        by (simp add: s3_def put_task_def unat_minus_one)
      ultimately show ?thesis using body True d c2 by simp
    qed
  qed
qed

lemma dispatch_loop_no_effect:
  assumes "table_inv n (fst st)"
  shows "(\<forall>st'. dispatch_loop n no_effect i st = Inr st' \<longrightarrow> table_inv n (fst st')) \<and>
         dispatch_loop n no_effect i st \<noteq> Inl NullCall"
  using assms
proof (induction n no_effect i st rule: dispatch_loop.induct)
  case (1 n i st)
  have unf: "dispatch_loop n no_effect i st =
      (if i < unat (tasks_counter (fst st)) then
         (case dispatch_body n no_effect i st of
            Inl f \<Rightarrow> Inl f
          | Inr st1 \<Rightarrow> dispatch_loop n no_effect (i + 1) st1)
       else Inr st)"
    by (rule dispatch_loop.simps)
  show ?case
  proof (cases "i < unat (tasks_counter (fst st))")
    case False
    with 1(2) show ?thesis by (simp add: unf)
  next
    case True
    show ?thesis
    proof (cases "i < n")
      case False
      then have "dispatch_body n no_effect i st = Inl OutOfBounds" by (rule dispatch_body_bounds)
      with True show ?thesis by (simp add: unf)
    next
      case lt: True
      from dispatch_body_no_effect [OF _ lt, of "fst st" "snd st"] 1(2)
      obtain s1 lg1 where
        b: "dispatch_body n no_effect i st = Inr (s1, lg1)" and inv1: "table_inv n s1"
        by auto
      from 1(1) [OF True b] inv1
      have "(\<forall>st'. dispatch_loop n no_effect (i + 1) (s1, lg1) = Inr st' \<longrightarrow> table_inv n (fst st')) \<and>
         dispatch_loop n no_effect (i + 1) (s1, lg1) \<noteq> Inl NullCall" by simp
      with True b show ?thesis by (simp add: unf)
    qed
  qed
qed

lemma dispatch_loop_total:
  assumes "table_inv n (fst st)" and "unat (tasks_counter (fst st)) \<le> n"
  shows "\<exists>st'. dispatch_loop n no_effect i st = Inr st' \<and> table_inv n (fst st') \<and>
           unat (tasks_counter (fst st')) \<le> n"
  using assms
proof (induction n no_effect i st rule: dispatch_loop.induct)
  case (1 n i st)
  show ?case
  proof (cases "i < unat (tasks_counter (fst st))")
    case False
    with 1(2,3) show ?thesis by (subst dispatch_loop.simps) simp
  next
    case True
    with 1(3) have lt: "i < n" by simp
    from dispatch_body_no_effect [OF _ lt, of "fst st" "snd st"] 1(2)
    obtain s1 lg1 where
      b: "dispatch_body n no_effect i st = Inr (s1, lg1)" and inv1: "table_inv n s1"
      and c1: "unat (tasks_counter s1) \<le> unat (tasks_counter (fst st))"
      by auto
    from c1 1(3) have "unat (tasks_counter s1) \<le> n" by simp
    with 1(1) [OF True b] inv1
    have "\<exists>st'. dispatch_loop n no_effect (i + 1) (s1, lg1) = Inr st' \<and> table_inv n (fst st') \<and>
           unat (tasks_counter (fst st')) \<le> n" by simp
    with True b show ?thesis
      by (subst dispatch_loop.simps) simp
  qed
qed

lemma table_inv_run_op:
  assumes n: "n < 2 ^ 32" and inv: "table_inv n s" and run: "run_op n no_effect x s = Inr s'"
  shows "table_inv n s'"
proof (cases x)
  case Init
  with run obtain r where "scheduler_init n s = Inr (r, s')"
    by (auto split: sum.splits)
  with inv show ?thesis by (rule table_inv_init)
next
  case (Add task name prm d p)
  with run have "s' = snd (scheduler_add_task n task name prm d p s)" by simp
  with inv n show ?thesis by (simp add: table_inv_add)
next
  case (Delete i)
  with run obtain r where "scheduler_delete_task n i s = Inr (r, s')"
    by (auto split: sum.splits)
  with inv show ?thesis by (rule table_inv_delete)
next
  case Tick
  with run have "s' = snd (scheduler_update n s)" by simp
  with inv show ?thesis by (simp add: table_inv_tick)
next
  case Dispatch
  with run obtain lg where "dispatch_loop n no_effect 0 (s, []) = Inr (s', lg)"
    by (auto simp: scheduler_dispatch_task_def split: sum.splits)
  with dispatch_loop_no_effect [of n "(s, [])" 0] inv show ?thesis by auto
qed

lemma table_inv_run_ops:
  "n < 2 ^ 32 \<Longrightarrow> table_inv n s \<Longrightarrow> run_ops n no_effect ops s = Inr s' \<Longrightarrow> table_inv n s'"
proof (induction ops arbitrary: s)
  case Nil
  then show ?case by simp
next
  case (Cons x xs)
  from Cons.prems(3) obtain s1 where
    a: "run_op n no_effect x s = Inr s1" and b: "run_ops n no_effect xs s1 = Inr s'"
    by (auto split: sum.splits)
  from Cons.prems(1,2) a have "table_inv n s1" by (rule table_inv_run_op)
  with Cons.IH Cons.prems(1) b show ?case by blast
qed

lemma reg_ops_callbacks:
  "list_all reg_op ops \<Longrightarrow> run_ops n cb ops s = run_ops n no_effect ops s"
proof (induction ops arbitrary: s)
  case Nil
  show ?case by simp
next
  case (Cons x xs)
  then have x: "run_op n cb x s = run_op n no_effect x s" by (cases x) simp_all
  from Cons.prems have "list_all reg_op xs" by simp
  then have ih: "run_ops n cb xs s1 = run_ops n no_effect xs s1" for s1 by (rule Cons.IH)
  show ?case by (cases "run_op n no_effect x s") (simp_all add: x ih)
qed

lemma counter_bound_run_op:
  assumes n: "n < 2 ^ 32" and inv: "table_inv n s" and c: "unat (tasks_counter s) \<le> n"
    and reg: "reg_op x" and run: "run_op n no_effect x s = Inr s'"
  shows "unat (tasks_counter s') \<le> n"
proof (cases x)
  case (Add task name prm d p)
  show ?thesis
  proof (cases "fst (scheduler_add_task n task name prm d p s) = SCH_STATUS_OK")
    case True
    from run Add have "s' = snd (scheduler_add_task n task name prm d p s)" by simp
    then have "tasks_counter s' = tasks_counter s + 1"
      by (simp add: add_success(2) [OF True] clear_flag_def put_task_def)
    moreover have "unat (tasks_counter s + 1) = Suc (unat (tasks_counter s))"
      using add_success(1) [OF True] n by (rule unat_counter_succ)
    ultimately show ?thesis using add_success(1) [OF True] by simp
  next
    case False
    from add_failure(1) [OF False] run Add c show ?thesis by simp
  qed
next
  case (Delete i)
  with run obtain r where d: "scheduler_delete_task n i s = Inr (r, s')"
    by (auto split: sum.splits)
  show ?thesis
  proof (cases "ptask (task_array s i) \<noteq> NULL")
    case False
    with d c show ?thesis by (auto simp: scheduler_delete_task_def split: if_splits)
  next
    case True
    from d have lt: "i < n" by (auto simp: scheduler_delete_task_def split: if_splits)
    have "0 < unat (tasks_counter s)" using inv lt True by (rule counter_positive)
    then have "tasks_counter s \<noteq> 0" by (simp add: unat_gt_0)
    then have "unat (tasks_counter s - 1) = unat (tasks_counter s) - 1" by (rule unat_minus_one)
    moreover from d delete_active [OF lt True]
    have "tasks_counter s' = tasks_counter s - 1" by (auto simp: put_task_def)
    ultimately show ?thesis using c by simp
  qed
qed (use reg in simp_all)

lemma counter_bound_run_ops:
  "n < 2 ^ 32 \<Longrightarrow> table_inv n s \<Longrightarrow> unat (tasks_counter s) \<le> n \<Longrightarrow> list_all reg_op ops \<Longrightarrow>
   run_ops n no_effect ops s = Inr s' \<Longrightarrow> table_inv n s' \<and> unat (tasks_counter s') \<le> n"
proof (induction ops arbitrary: s)
  case Nil
  then show ?case by simp
next
  case (Cons x xs)
  from Cons.prems(5) obtain s1 where
    a: "run_op n no_effect x s = Inr s1" and b: "run_ops n no_effect xs s1 = Inr s'"
    by (auto split: sum.splits)
  from Cons.prems(4) have rx: "reg_op x" and rxs: "list_all reg_op xs" by simp_all
  from Cons.prems(1,2) a have "table_inv n s1" by (rule table_inv_run_op)
  moreover from Cons.prems(1,2,3) rx a have "unat (tasks_counter s1) \<le> n"
    by (rule counter_bound_run_op)
  ultimately show ?case using Cons.IH [OF Cons.prems(1) _ _ rxs b] by blast
qed

subsection \<open>Without a second initialization\<close>

lemma always_inv_tick:
  assumes "always_inv n s"
  shows "always_inv n (snd (scheduler_update n s))"
  using assms
  by (auto simp: always_inv_def tick_array update_task_ptask update_task_period
      update_task_always)

lemma always_inv_delete:
  assumes "always_inv n s" and "scheduler_delete_task n i s = Inr (r, s')"
  shows "always_inv n s'"
  using assms
  by (auto simp: always_inv_def scheduler_delete_task_def put_task_def clear_task_def
      split: if_splits)

lemma always_inv_add:
  assumes "always_inv n s"
  shows "always_inv n (snd (scheduler_add_task n task name prm d p s))"
proof (cases "fst (scheduler_add_task n task name prm d p s) = SCH_STATUS_OK")
  case False
  from add_failure(2) [OF False] assms show ?thesis by (simp add: always_inv_def)
next
  case True
  from assms show ?thesis by (auto simp: always_inv_def add_success_array [OF True])
qed

lemma steady_boot: "steady n boot"
  by (simp add: steady_def table_inv_boot always_inv_def) (simp add: boot_def empty_task_def)

lemma dispatch_body_steady:
  assumes st: "steady n s" and lt: "i < n"
  shows "\<exists>s' ext. dispatch_body n no_effect i (s, lg) = Inr (s', lg @ ext) \<and> steady n s' \<and>
           tasks_counter s' = tasks_counter s \<and>
           (\<forall>j. j \<noteq> i \<or> status (task_array s i) = RUN_ALWAYS \<longrightarrow>
                task_array s' j = task_array s j) \<and>
           (\<forall>e\<in>set ext. fst e = i) \<and>
           (status (task_array s i) = RUN_ALWAYS \<longrightarrow> ext = [(i, ptask (task_array s i))])"
proof -
  from st have inv: "table_inv n s" and c: "unat (tasks_counter s) \<le> n"
    and al: "always_inv n s" by (simp_all add: steady_def)
  consider (always) "status (task_array s i) = RUN_ALWAYS"
    | (ready) "status (task_array s i) = READY"
    | (other) "status (task_array s i) \<noteq> RUN_ALWAYS" "status (task_array s i) \<noteq> READY"
    by blast
  then show ?thesis
  proof cases
    case always
    with inv lt have "ptask (task_array s i) \<noteq> NULL" by (intro table_inv_status_active) auto
    with always lt have "dispatch_body n no_effect i (s, lg) =
        Inr (s, lg @ [(i, ptask (task_array s i))])"
      by (simp add: dispatch_body_def call_task_def no_effect_def Let_def)
    with st always show ?thesis by simp
  next
    case other
    with lt have "dispatch_body n no_effect i (s, lg) = Inr (s, lg @ [])"
      by (simp add: dispatch_body_def)
    with st other show ?thesis by (intro exI [of _ s] exI [of _ "[]"]) simp
  next
    case ready
    with inv lt have p: "ptask (task_array s i) \<noteq> NULL" by (intro table_inv_status_active) auto
    from al lt p ready have per: "period (task_array s i) \<noteq> 0"
      by (auto simp: always_inv_def)
    define s2 where "s2 = set_status i STOPPED (set_status i RUNNING s)"
    have inv2: "table_inv n s2"
      unfolding s2_def using inv p
      by (intro table_inv_set_status) (simp_all add: set_status_def put_task_def)
    have c2: "tasks_counter s2 = tasks_counter s"
      by (simp add: s2_def set_status_def put_task_def)
    have arr2: "task_array s2 j = (if j = i then (task_array s i)\<lparr>status := STOPPED\<rparr>
                                   else task_array s j)" for j
      by (simp add: s2_def set_status_def put_task_def)
    have al2: "always_inv n s2"
      using al per by (auto simp: always_inv_def arr2)
    have body: "dispatch_body n no_effect i (s, lg) = Inr (s2, lg @ [(i, ptask (task_array s i))])"
      using ready lt p per
      by (simp add: dispatch_body_def dispatch_ready_def call_task_def no_effect_def Let_def
          s2_def set_status_def put_task_def)
    have "steady n s2" using inv2 c c2 al2 by (simp add: steady_def)
    with body c2 ready arr2 show ?thesis
      by (intro exI [of _ s2] exI [of _ "[(i, ptask (task_array s i))]"]) simp
  qed
qed

lemma dispatch_loop_steady:
  assumes "steady n (fst st)"
  shows "\<exists>s' ext. dispatch_loop n no_effect i st = Inr (s', snd st @ ext) \<and> steady n s' \<and>
           tasks_counter s' = tasks_counter (fst st) \<and>
           (\<forall>j. status (task_array (fst st) j) = RUN_ALWAYS \<longrightarrow>
                task_array s' j = task_array (fst st) j \<and>
                filter (\<lambda>e. fst e = j) ext =
                  (if i \<le> j \<and> j < unat (tasks_counter (fst st))
                   then [(j, ptask (task_array (fst st) j))] else []))"
  using assms
proof (induction n no_effect i st rule: dispatch_loop.induct)
  case (1 n i st)
  have unf: "dispatch_loop n no_effect i st =
      (if i < unat (tasks_counter (fst st)) then
         (case dispatch_body n no_effect i st of
            Inl f \<Rightarrow> Inl f
          | Inr st1 \<Rightarrow> dispatch_loop n no_effect (i + 1) st1)
       else Inr st)"
    by (rule dispatch_loop.simps)
  show ?case
  proof (cases "i < unat (tasks_counter (fst st))")
    case False
    with 1(2) show ?thesis
      by (intro exI [of _ "fst st"] exI [of _ "[]"]) (auto simp: unf)
  next
    case True
    from 1(2) have "unat (tasks_counter (fst st)) \<le> n" by (simp add: steady_def)
    with True have lt: "i < n" by simp
    from dispatch_body_steady [OF 1(2) lt, of "snd st"] obtain s1 e1 where
      b: "dispatch_body n no_effect i st = Inr (s1, snd st @ e1)"
      and st1: "steady n s1" and c1: "tasks_counter s1 = tasks_counter (fst st)"
      and same1: "\<And>j. j \<noteq> i \<or> status (task_array (fst st) i) = RUN_ALWAYS \<Longrightarrow>
                    task_array s1 j = task_array (fst st) j"
      and e1: "\<forall>e\<in>set e1. fst e = i"
      and e1a: "status (task_array (fst st) i) = RUN_ALWAYS \<Longrightarrow>
                  e1 = [(i, ptask (task_array (fst st) i))]"
      by auto
    from 1(1) [OF True b] st1 obtain s' e2 where
      l: "dispatch_loop n no_effect (i + 1) (s1, snd st @ e1) = Inr (s', (snd st @ e1) @ e2)"
      and st': "steady n s'" and c': "tasks_counter s' = tasks_counter s1"
      and same2: "\<And>j. status (task_array s1 j) = RUN_ALWAYS \<Longrightarrow>
                task_array s' j = task_array s1 j \<and>
                filter (\<lambda>e. fst e = j) e2 =
                  (if i + 1 \<le> j \<and> j < unat (tasks_counter s1)
                   then [(j, ptask (task_array s1 j))] else [])"
      by auto
    have run: "dispatch_loop n no_effect i st = Inr (s', snd st @ (e1 @ e2))"
      using True b l by (simp add: unf)
    have post: "task_array s' j = task_array (fst st) j \<and>
                filter (\<lambda>e. fst e = j) (e1 @ e2) =
                  (if i \<le> j \<and> j < unat (tasks_counter (fst st))
                   then [(j, ptask (task_array (fst st) j))] else [])"
      if ra: "status (task_array (fst st) j) = RUN_ALWAYS" for j
    proof -
      have keep: "task_array s1 j = task_array (fst st) j"
        using same1 [of j] ra by (cases "j = i") auto
      with ra have ra1: "status (task_array s1 j) = RUN_ALWAYS" by simp
      note s2 = same2 [OF ra1]
      have f1: "filter (\<lambda>e. fst e = j) e1 = (if j = i then [(j, ptask (task_array (fst st) j))] else [])"
      proof (cases "j = i")
        case True
        with ra e1a show ?thesis by simp
      next
        case False
        with e1 show ?thesis by (auto simp: filter_empty_conv)
      qed
      from s2 keep c1 True f1 show ?thesis by (auto simp: c1)
    qed
    from run st' c' c1 post show ?thesis by (intro exI [of _ s'] exI [of _ "e1 @ e2"]) simp
  qed
qed

lemma steady_run_op:
  assumes n: "n < 2 ^ 32" and st: "steady n s" and live: "live_op x"
    and run: "run_op n no_effect x s = Inr s'"
  shows "steady n s'"
proof -
  from st have inv: "table_inv n s" and c: "unat (tasks_counter s) \<le> n"
    and al: "always_inv n s" by (simp_all add: steady_def)
  have inv': "table_inv n s'" using n inv run by (rule table_inv_run_op)
  show ?thesis
  proof (cases x)
    case Init
    with live show ?thesis by simp
  next
    case (Add task name prm d p)
    then have "reg_op x" by simp
    with n inv c have "unat (tasks_counter s') \<le> n" using run by (rule counter_bound_run_op)
    moreover from run Add have "s' = snd (scheduler_add_task n task name prm d p s)" by simp
    with al have "always_inv n s'" by (simp add: always_inv_add)
    ultimately show ?thesis using inv' by (simp add: steady_def)
  next
    case (Delete i)
    then have "reg_op x" by simp
    with n inv c have "unat (tasks_counter s') \<le> n" using run by (rule counter_bound_run_op)
    moreover from run Delete obtain r where "scheduler_delete_task n i s = Inr (r, s')"
      by (auto split: sum.splits)
    with al have "always_inv n s'" by (rule always_inv_delete)
    ultimately show ?thesis using inv' by (simp add: steady_def)
  next
    case Tick
    with run have "s' = snd (scheduler_update n s)" by simp
    with c al inv' show ?thesis by (simp add: steady_def tick_counter always_inv_tick)
  next
    case Dispatch
    with run obtain lg where d: "dispatch_loop n no_effect 0 (s, []) = Inr (s', lg)"
      by (auto simp: scheduler_dispatch_task_def split: sum.splits)
    from dispatch_loop_steady [of n "(s, [])" 0] st d show ?thesis by auto
  qed
qed

lemma steady_run_ops:
  "n < 2 ^ 32 \<Longrightarrow> steady n s \<Longrightarrow> list_all live_op ops \<Longrightarrow>
   run_ops n no_effect ops s = Inr s' \<Longrightarrow> steady n s'"
proof (induction ops arbitrary: s)
  case Nil
  then show ?case by simp
next
  case (Cons x xs)
  from Cons.prems(4) obtain s1 where
    a: "run_op n no_effect x s = Inr s1" and b: "run_ops n no_effect xs s1 = Inr s'"
    by (auto split: sum.splits)
  from Cons.prems(3) have lx: "live_op x" and lxs: "list_all live_op xs" by simp_all
  from Cons.prems(1,2) lx a have "steady n s1" by (rule steady_run_op)
  with Cons.IH [OF Cons.prems(1) _ lxs b] show ?case by blast
qed

text \<open>Ticks and dispatch passes keep a \<^verbatim>\<open>RUN_ALWAYS\<close> task where it is.\<close>

lemma pass_ops_keep_always:
  assumes "steady n s" and "k < n" and "ptask (task_array s k) = task"
    and "status (task_array s k) = RUN_ALWAYS" and "list_all pass_op ops"
  shows "\<exists>s'. run_ops n no_effect ops s = Inr s' \<and> steady n s' \<and>
           tasks_counter s' = tasks_counter s \<and> ptask (task_array s' k) = task \<and>
           status (task_array s' k) = RUN_ALWAYS"
  using assms
proof (induction ops arbitrary: s)
  case Nil
  then show ?case by simp
next
  case (Cons x xs)
  from Cons.prems(5) have px: "pass_op x" and pxs: "list_all pass_op xs" by simp_all
  have "\<exists>s1. run_op n no_effect x s = Inr s1 \<and> steady n s1 \<and>
           tasks_counter s1 = tasks_counter s \<and> ptask (task_array s1 k) = task \<and>
           status (task_array s1 k) = RUN_ALWAYS"
  proof (cases x)
    case Tick
    from Cons.prems(1) have "steady n (snd (scheduler_update n s))"
      by (simp add: steady_def table_inv_tick tick_counter always_inv_tick)
    with Tick Cons.prems(2,3,4) show ?thesis
      by (simp add: tick_counter tick_array update_task_ptask update_task_always)
  next
    case Dispatch
    from dispatch_loop_steady [of n "(s, [])" 0] Cons.prems(1) obtain s1 ext where
      "dispatch_loop n no_effect 0 (s, []) = Inr (s1, ext)" "steady n s1"
      "tasks_counter s1 = tasks_counter s"
      "\<And>j. status (task_array s j) = RUN_ALWAYS \<Longrightarrow> task_array s1 j = task_array s j"
      by auto
    with Dispatch Cons.prems(3,4) show ?thesis
      by (simp add: scheduler_dispatch_task_def)
  qed (use px in simp_all)
  then obtain s1 where s1: "run_op n no_effect x s = Inr s1" "steady n s1"
    "tasks_counter s1 = tasks_counter s" "ptask (task_array s1 k) = task"
    "status (task_array s1 k) = RUN_ALWAYS" by blast
  from Cons.IH [OF s1(2) Cons.prems(2) s1(4,5) pxs] s1(1,3) show ?case by auto
qed

text \<open>
  Without removals in between, a task registered with period 0 is dispatched once in
  every pass: from a state reached without a second initialization, after the
  registration and any number of ticks and dispatch passes (callbacks leaving the
  scheduler's variables alone), the task is still \<^verbatim>\<open>RUN_ALWAYS\<close> in its slot and the
  log of the next dispatch pass holds exactly one call for that slot.
\<close>

lemma run_always_dispatched:
  fixes s :: sched
  assumes n: "n < 2 ^ 32" and live: "list_all live_op ops"
    and reach: "run_ops n no_effect ops (fresh n) = Inr s"
    and ok: "fst (scheduler_add_task n task name prm d 0 s) = SCH_STATUS_OK"
    and pass: "list_all pass_op ops2"
  defines "k \<equiv> unat (tasks_counter s)"
  shows "status (task_array (snd (scheduler_add_task n task name prm d 0 s)) k) = RUN_ALWAYS
       \<and> (\<exists>s2. run_ops n no_effect ops2 (snd (scheduler_add_task n task name prm d 0 s)) = Inr s2 \<and>
             ptask (task_array s2 k) = task \<and> status (task_array s2 k) = RUN_ALWAYS \<and>
             (\<exists>s3 lg. scheduler_dispatch_task n no_effect s2 = Inr (s3, lg) \<and>
                filter (\<lambda>e. fst e = k) lg = [(k, task)]))"
proof -
  define s1 where "s1 = snd (scheduler_add_task n task name prm d 0 s)"
  from reach have "run_ops n no_effect ops boot = Inr s" by (simp add: fresh_boot)
  with n steady_boot live have st: "steady n s" by (rule steady_run_ops)
  have lv: "live_op (Add task name prm d 0)" by simp
  have rn: "run_op n no_effect (Add task name prm d 0) s = Inr s1" by (simp add: s1_def)
  have st1: "steady n s1" by (rule steady_run_op [OF n st lv rn])
  have kn: "k < n" unfolding k_def by (rule add_success(1) [OF ok])
  have slot: "ptask (task_array s1 k) = task" "status (task_array s1 k) = RUN_ALWAYS"
    by (simp_all add: s1_def k_def add_success_array [OF ok])
  have c1: "tasks_counter s1 = tasks_counter s + 1"
    by (simp add: s1_def add_success(2) [OF ok] clear_flag_def put_task_def)
  have "unat (tasks_counter s + 1) = Suc (unat (tasks_counter s))"
    using kn n unfolding k_def by (rule unat_counter_succ)
  with c1 have kc: "k < unat (tasks_counter s1)" by (simp add: k_def)
  from pass_ops_keep_always [OF st1 kn slot pass] obtain s2 where
    s2: "run_ops n no_effect ops2 s1 = Inr s2" "steady n s2"
    "tasks_counter s2 = tasks_counter s1" "ptask (task_array s2 k) = task"
    "status (task_array s2 k) = RUN_ALWAYS" by blast
  from dispatch_loop_steady [of n "(s2, [])" 0] s2(2) obtain s3 lg where
    d: "dispatch_loop n no_effect 0 (s2, []) = Inr (s3, lg)"
    and f: "\<And>j. status (task_array s2 j) = RUN_ALWAYS \<Longrightarrow>
              filter (\<lambda>e. fst e = j) lg =
                (if 0 \<le> j \<and> j < unat (tasks_counter s2)
                 then [(j, ptask (task_array s2 j))] else [])"
    by auto
  from f [OF s2(5)] kc s2(3,4) have "filter (\<lambda>e. fst e = k) lg = [(k, task)]" by simp
  with d have "\<exists>s3 lg. scheduler_dispatch_task n no_effect s2 = Inr (s3, lg) \<and>
                filter (\<lambda>e. fst e = k) lg = [(k, task)]"
    by (auto simp: scheduler_dispatch_task_def)
  with s2 slot show ?thesis unfolding s1_def [symmetric] by blast
qed

subsection \<open>Delays within the period\<close>

lemma timely_boot: "timely task n boot"
  by (simp add: timely_def boot_def empty_task_def)

lemma timely_run_op:
  assumes t: "timely task n s" and nn: "task \<noteq> NULL" and w: "within_period task x"
    and run: "run_op n no_effect x s = Inr s'"
  shows "timely task n s'"
proof (cases x)
  case Init
  with run obtain r where "scheduler_init n s = Inr (r, s')" by (auto split: sum.splits)
  with scheduler_init_result [of n s]
  have arr: "\<And>i. task_array s' i =
        (if i < n \<and> ptask (task_array s i) \<noteq> NULL
         then clear_task (task_array s i) else task_array s i)" by auto
  show ?thesis unfolding timely_def
  proof (intro allI impI)
    fix i assume "i < n" and a: "ptask (task_array s' i) = task \<and> 0 < period (task_array s' i)"
    with nn have "ptask (task_array s i) = NULL"
      by (auto simp: arr clear_task_def split: if_splits)
    with a nn show "delay (task_array s' i) \<le> period (task_array s' i)" by (simp add: arr)
  qed
next
  case (Add task' name prm d p)
  with run have s': "s' = snd (scheduler_add_task n task' name prm d p s)" by simp
  show ?thesis
  proof (cases "fst (scheduler_add_task n task' name prm d p s) = SCH_STATUS_OK")
    case False
    from add_failure(2) [OF False] t show ?thesis by (simp add: s' timely_def)
  next
    case True
    from w Add have "task' = task \<longrightarrow> p = 0 \<or> d \<le> p" by simp
    with t show ?thesis
      by (auto simp: s' timely_def add_success_array [OF True])
  qed
next
  case (Delete i)
  with run obtain r where "scheduler_delete_task n i s = Inr (r, s')" by (auto split: sum.splits)
  with t nn show ?thesis
    by (auto simp: timely_def scheduler_delete_task_def put_task_def clear_task_def
        split: if_splits)
next
  case Tick
  with run have s': "s' = snd (scheduler_update n s)" by simp
  show ?thesis unfolding timely_def
  proof (intro allI impI)
    fix i assume lt: "i < n"
      and a: "ptask (task_array s' i) = task \<and> 0 < period (task_array s' i)"
    with nn have b: "ptask (task_array s i) \<noteq> NULL" "0 < period (task_array s i)"
      "ptask (task_array s i) = task"
      by (simp_all add: s' tick_array update_task_ptask update_task_period)
    with t lt have "delay (task_array s i) \<le> period (task_array s i)" by (simp add: timely_def)
    from periodic_step(2,3) [OF b(1,2) this] lt
    show "delay (task_array s' i) \<le> period (task_array s' i)" by (simp add: s' tick_array)
  qed
next
  case Dispatch
  with run obtain lg where d: "dispatch_loop n no_effect 0 (s, []) = Inr (s', lg)"
    by (auto simp: scheduler_dispatch_task_def split: sum.splits)
  show ?thesis unfolding timely_def
  proof (intro allI impI)
    fix i assume lt: "i < n"
      and a: "ptask (task_array s' i) = task \<and> 0 < period (task_array s' i)"
    from dispatch_loop_keeps [OF d, of i] a nn
    have "ptask (task_array s' i) = ptask (task_array s i)"
      "delay (task_array s' i) = delay (task_array s i)"
      "period (task_array s' i) = period (task_array s i)" by auto
    with t lt a show "delay (task_array s' i) \<le> period (task_array s' i)"
      by (simp add: timely_def)
  qed
qed

lemma timely_run_ops:
  "timely task n s \<Longrightarrow> task \<noteq> NULL \<Longrightarrow> list_all (within_period task) ops \<Longrightarrow>
   run_ops n no_effect ops s = Inr s' \<Longrightarrow> timely task n s'"
proof (induction ops arbitrary: s)
  case Nil
  then show ?case by simp
next
  case (Cons x xs)
  from Cons.prems(4) obtain s1 where
    a: "run_op n no_effect x s = Inr s1" and b: "run_ops n no_effect xs s1 = Inr s'"
    by (auto split: sum.splits)
  from Cons.prems(3) have wx: "within_period task x"
    and wxs: "list_all (within_period task) xs" by simp_all
  have "timely task n s1" by (rule timely_run_op [OF Cons.prems(1,2) wx a])
  then show ?case by (rule Cons.IH [OF _ Cons.prems(2) wxs b])
qed

subsection \<open>The example states\<close>

lemmas sched_defs =
  scheduler_add_task_def scheduler_delete_task_def scheduler_update_def
  scheduler_dispatch_task_def dispatch_body_def dispatch_ready_def call_task_def
  set_status_def put_task_def clear_task_def update_task_def set_flag_def clear_flag_def
  BIT_SET_def BIT_CLEAR_def SCH_STATUS_OK_def SCH_ERROR_def SCH_STATUS_FLAG_def
  SCH_TASK_CREATE_FLAG_def SCH_RUN_FLAG_def NULL_def boot_def empty_task_def no_effect_def
  Let_def

lemma probe_body:
  "dispatch_body 2 probe 0 (ready_example, []) = Inr (ready_result, [(0, 7)])"
  by (simp add: dispatch_body_def dispatch_ready_def call_task_def set_status_def
      put_task_def ready_example_def ready_result_def boot_def empty_task_def probe_def
      NULL_def Let_def)

lemma probe_pass:
  "scheduler_dispatch_task 2 probe ready_example = Inr (ready_result, [(0, 7)])"
proof -
  have c: "tasks_counter ready_example = 1" "tasks_counter ready_result = 1"
    by (simp_all add: ready_example_def ready_result_def put_task_def)
  show ?thesis
    unfolding scheduler_dispatch_task_def
    by (subst dispatch_loop.simps, simp add: c probe_body, subst dispatch_loop.simps)
       (simp add: c)
qed

lemma probe_result:
  "scheduler_status ready_result = 1" "status (task_array ready_result 0) = STOPPED"
  by (simp_all add: ready_result_def)

lemma gap_run: "run_ops 2 no_effect gap_ops (fresh 2) = Inr gap_example"
  unfolding gap_example_def gap_ops_def fresh_boot
  by (simp add: sched_defs add_scan.simps)

lemma always_run: "run_ops 2 no_effect always_ops (fresh 2) = Inr always_example"
  unfolding always_example_def always_ops_def fresh_boot
  by (simp add: sched_defs add_scan.simps)

lemma full_run: "run_ops 2 no_effect full_ops (fresh 2) = Inr full_example"
  unfolding full_example_def full_ops_def fresh_boot
  by (simp add: sched_defs add_scan.simps)

lemma stale_run: "run_ops 4 no_effect stale_ops (fresh 4) = Inr stale_example"
  unfolding stale_example_def stale_ops_def fresh_boot
  by (simp add: sched_defs add_scan.simps)

lemma late_run: "run_ops 4 no_effect late_ops (fresh 4) = Inr late_example"
  by (simp add: late_ops_def late_example_def)

lemma late_removed: "scheduler_delete_task 4 0 late_example = Inr (SCH_STATUS_OK, stale_example)"
  unfolding late_example_def stale_example_def fresh_boot
  by (simp add: sched_defs add_scan.simps)

lemma late_slot:
  "period (task_array late_example 0) = 5" "task_name (task_array late_example 0) = Some ''B''"
  unfolding late_example_def fresh_boot
  by (simp_all add: sched_defs add_scan.simps)

lemma periodic_ops_run: "run_ops 4 no_effect periodic_ops (fresh 4) = Inr periodic_example"
  unfolding periodic_example_def periodic_ops_def fresh_boot
  by (simp add: sched_defs add_scan.simps update_loop.simps dispatch_loop.simps)

lemma periodic_slot:
  "ptask (task_array periodic_example 0) = 8" "period (task_array periodic_example 0) = 5"
  "delay (task_array periodic_example 0) = 4"
  unfolding periodic_example_def periodic_ops_def fresh_boot
  by (simp_all add: sched_defs add_scan.simps update_loop.simps dispatch_loop.simps)




section \<open>The claims\<close>

text \<open>
  C1. One call of the tick, slot by slot (for every slot \<open>i\<close> below \<^verbatim>\<open>MAX_TASKS\<close>):
  an active slot whose delay is 0 becomes \<^verbatim>\<open>READY\<close> unless its status is \<^verbatim>\<open>RUN_ALWAYS\<close>
  or \<^verbatim>\<open>SUSPENDED\<close>, which stay, and its delay becomes the period when the period is
  positive and stays 0 otherwise; an active slot whose delay is not 0 has its delay
  decremented by exactly one (without wrapping) and keeps its status; an inactive slot
  keeps its whole record.
\<close>

theorem tick_slot:
  assumes "i < n"
  shows "(ptask (task_array s i) \<noteq> NULL \<and> delay (task_array s i) = 0 \<longrightarrow>
            status (task_array (snd (scheduler_update n s)) i) =
              (if status (task_array s i) = RUN_ALWAYS \<or> status (task_array s i) = SUSPENDED
               then status (task_array s i) else READY) \<and>
            delay (task_array (snd (scheduler_update n s)) i) =
              (if period (task_array s i) > 0 then period (task_array s i) else 0))
       \<and> (ptask (task_array s i) \<noteq> NULL \<and> delay (task_array s i) \<noteq> 0 \<longrightarrow>
            unat (delay (task_array (snd (scheduler_update n s)) i)) + 1 =
              unat (delay (task_array s i)) \<and>
            status (task_array (snd (scheduler_update n s)) i) = status (task_array s i))
       \<and> (ptask (task_array s i) = NULL \<longrightarrow>
            task_array (snd (scheduler_update n s)) i = task_array s i)"
  using assms by (auto simp: tick_array update_task_def Let_def unat_pred)

theorem tick_slot_witness:
  "status (task_array (snd (scheduler_update 3 tick_example)) 0) = READY
   \<and> delay (task_array (snd (scheduler_update 3 tick_example)) 0) = 5
   \<and> unat (delay (task_array (snd (scheduler_update 3 tick_example)) 1)) = 2
   \<and> task_array (snd (scheduler_update 3 tick_example)) 2 = empty_task"
  using tick_slot [of 0 3 tick_example] tick_slot [of 1 3 tick_example]
    tick_slot [of 2 3 tick_example]
  by (simp add: tick_example_def put_task_def boot_def empty_task_def NULL_def)

text \<open>
  C2. A slot \<open>i\<close> that is \<^verbatim>\<open>READY\<close> (with a callback \<open>p\<close> that is not null) when the
  scan of the dispatcher reaches it. The iteration calls \<open>p\<close> once, on the state \<open>s0\<close>
  that differs from the state before only in the status of slot \<open>i\<close>, which is
  \<^verbatim>\<open>RUNNING\<close>. Let \<open>s1\<close> be the state the callback returns. When the status of the slot
  is still \<^verbatim>\<open>RUNNING\<close> in \<open>s1\<close> it is set to \<^verbatim>\<open>STOPPED\<close>, and nothing else
  changes; otherwise \<open>s1\<close> is left as the callback made it. When the period of the slot
  is then 0, \<^verbatim>\<open>scheduler_delete_task\<close> removes the task: the callback of the slot is
  null afterwards and, if it was not null before, the counter has been decremented and
  the slot is \<^verbatim>\<open>STOPPED\<close> with delay 0. In the log of a whole pass that goes on from
  this slot and returns, the slot has exactly one more call.
\<close>

theorem dispatch_ready_slot:
  fixes cb :: callbacks and s :: sched and i n :: nat and lg :: call_log
  assumes "i < n" and "status (task_array s i) = READY" and "ptask (task_array s i) \<noteq> NULL"
  defines "p \<equiv> ptask (task_array s i)"
  defines "s0 \<equiv> s\<lparr>task_array := (task_array s)(i := (task_array s i)\<lparr>status := RUNNING\<rparr>)\<rparr>"
  defines "s1 \<equiv> cb p i s0"
  defines "s2 \<equiv> (if status (task_array s1 i) = RUNNING
                  then s1\<lparr>task_array := (task_array s1)(i := (task_array s1 i)\<lparr>status := STOPPED\<rparr>)\<rparr>
                  else s1)"
  shows "(\<exists>s'. dispatch_body n cb i (s, lg) = Inr (s', lg @ [(i, p)]) \<and>
            (if period (task_array s2 i) = 0
             then scheduler_delete_task n i s2 = Inr (SCH_STATUS_OK, s') \<and>
                  ptask (task_array s' i) = NULL
             else s' = s2) \<and>
            (status (task_array s1 i) = RUNNING \<and> ptask (task_array s1 i) \<noteq> NULL \<longrightarrow>
               status (task_array s' i) = STOPPED) \<and>
            (status (task_array s1 i) \<noteq> RUNNING \<and> period (task_array s1 i) \<noteq> 0 \<longrightarrow>
               s' = s1) \<and>
            (period (task_array s1 i) = 0 \<and> ptask (task_array s1 i) \<noteq> NULL \<longrightarrow>
               tasks_counter s' = tasks_counter s1 - 1 \<and> status (task_array s' i) = STOPPED \<and>
               delay (task_array s' i) = 0))
       \<and> (\<forall>s' lg'. i < unat (tasks_counter s) \<and> dispatch_loop n cb i (s, lg) = Inr (s', lg') \<longrightarrow>
            length (filter (\<lambda>e. fst e = i) lg') = length (filter (\<lambda>e. fst e = i) lg) + 1)"
proof (intro conjI allI impI)
  have body: "dispatch_body n cb i (s, lg) = dispatch_ready n cb i (s, lg)"
    using assms(1-3) by (rule dispatch_body_ready)
  have s0: "set_status i RUNNING s = s0" by (simp add: set_status_def put_task_def s0_def)
  have stop: "set_status i STOPPED s1 =
      s1\<lparr>task_array := (task_array s1)(i := (task_array s1 i)\<lparr>status := STOPPED\<rparr>)\<rparr>"
    by (simp add: set_status_def put_task_def)
  have call: "call_task cb i (s0, lg) = Inr (s1, lg @ [(i, p)])"
    using assms(3) by (simp add: call_task_def p_def s1_def s0_def Let_def)
  have ready: "dispatch_body n cb i (s, lg) =
      (if period (task_array s2 i) = 0
       then (case scheduler_delete_task n i s2 of
               Inl f \<Rightarrow> Inl f | Inr (r, s3) \<Rightarrow> Inr (s3, lg @ [(i, p)]))
       else Inr (s2, lg @ [(i, p)]))"
  proof -
    have r1: "dispatch_ready n cb i (s, lg) =
        (let s2' = (if RUNNING = status (task_array s1 i) then set_status i STOPPED s1 else s1)
         in if 0 = period (task_array s2' i) then
              (case scheduler_delete_task n i s2' of
                 Inl f \<Rightarrow> Inl f | Inr (r, s3) \<Rightarrow> Inr (s3, lg @ [(i, p)]))
            else Inr (s2', lg @ [(i, p)]))"
      by (simp add: dispatch_ready_def s0 call)
    have s2': "(if RUNNING = status (task_array s1 i) then set_status i STOPPED s1 else s1) = s2"
      by (simp add: s2_def stop)
    show ?thesis unfolding body r1 s2' Let_def by (simp add: eq_commute [of 0])
  qed
  have per2: "period (task_array s2 i) = period (task_array s1 i)"
    and pt2: "ptask (task_array s2 i) = ptask (task_array s1 i)"
    and c2: "tasks_counter s2 = tasks_counter s1"
    by (simp_all add: s2_def)
  have st2: "status (task_array s2 i) = STOPPED" if "status (task_array s1 i) = RUNNING"
    using that by (simp add: s2_def)
  show "\<exists>s'. dispatch_body n cb i (s, lg) = Inr (s', lg @ [(i, p)]) \<and>
            (if period (task_array s2 i) = 0
             then scheduler_delete_task n i s2 = Inr (SCH_STATUS_OK, s') \<and>
                  ptask (task_array s' i) = NULL
             else s' = s2) \<and>
            (status (task_array s1 i) = RUNNING \<and> ptask (task_array s1 i) \<noteq> NULL \<longrightarrow>
               status (task_array s' i) = STOPPED) \<and>
            (status (task_array s1 i) \<noteq> RUNNING \<and> period (task_array s1 i) \<noteq> 0 \<longrightarrow>
               s' = s1) \<and>
            (period (task_array s1 i) = 0 \<and> ptask (task_array s1 i) \<noteq> NULL \<longrightarrow>
               tasks_counter s' = tasks_counter s1 - 1 \<and> status (task_array s' i) = STOPPED \<and>
               delay (task_array s' i) = 0)"
  proof (cases "period (task_array s2 i) = 0")
    case True
    from delete_in_range [OF assms(1), of s2] obtain s3 where
      d: "scheduler_delete_task n i s2 = Inr (SCH_STATUS_OK, s3)" "ptask (task_array s3 i) = NULL"
      by auto
    have cl: "status (task_array s3 i) = STOPPED \<and> delay (task_array s3 i) = 0 \<and>
              tasks_counter s3 = tasks_counter s1 - 1"
      if "ptask (task_array s1 i) \<noteq> NULL"
      using delete_slot_cleared [OF assms(1) _ d(1)] that pt2 c2 by simp
    from True d cl per2 show ?thesis unfolding ready by (intro exI [of _ s3]) simp
  next
    case False
    with per2 st2 show ?thesis unfolding ready by (intro exI [of _ s2]) (auto simp: s2_def)
  qed
  then obtain sb where sb: "dispatch_body n cb i (s, lg) = Inr (sb, lg @ [(i, p)])" by auto
  fix s' lg'
  assume "i < unat (tasks_counter s) \<and> dispatch_loop n cb i (s, lg) = Inr (s', lg')"
  then have lt: "i < unat (tasks_counter s)"
    and run: "dispatch_loop n cb i (s, lg) = Inr (s', lg')" by simp_all
  from run lt sb have "dispatch_loop n cb (i + 1) (sb, lg @ [(i, p)]) = Inr (s', lg')"
    by (subst (asm) dispatch_loop.simps) simp
  from dispatch_loop_log [OF this] obtain ext where
    "lg' = (lg @ [(i, p)]) @ ext" "\<forall>e\<in>set ext. i + 1 \<le> fst e" by auto
  moreover from this have "filter (\<lambda>e. fst e = i) ext = []"
    by (auto simp: filter_empty_conv)
  ultimately show "length (filter (\<lambda>e. fst e = i) lg') = length (filter (\<lambda>e. fst e = i) lg) + 1"
    by simp
qed

theorem dispatch_ready_slot_witness:
  "status (task_array ready_example 0) = READY
   \<and> ptask (task_array ready_example 0) \<noteq> NULL
   \<and> 0 < unat (tasks_counter ready_example)
   \<and> scheduler_dispatch_task 2 probe ready_example = Inr (ready_result, [(0, 7)])
   \<and> scheduler_status ready_result = 1
   \<and> status (task_array ready_result 0) = STOPPED
   \<and> dispatch_body 2 probe 0 (ready_example, []) = Inr (ready_result, [(0, 7)])
   \<and> length (filter (\<lambda>e. fst e = 0) [(0 :: nat, 7 :: nat)]) = 1"
proof -
  have h: "(0::nat) < 2" "status (task_array ready_example 0) = READY"
    "ptask (task_array ready_example 0) \<noteq> NULL"
    by (simp_all add: ready_example_def put_task_def boot_def empty_task_def NULL_def)
  have c: "0 < unat (tasks_counter ready_example)" by (simp add: ready_example_def put_task_def)
  have run: "dispatch_loop 2 probe 0 (ready_example, []) = Inr (ready_result, [(0, 7)])"
    using probe_pass by (simp add: scheduler_dispatch_task_def)
  note th = dispatch_ready_slot [OF h, of probe "[]"]
  from th [THEN conjunct2, rule_format, of ready_result "[(0, 7)]"] c run
  have "length (filter (\<lambda>e. fst e = 0) [(0 :: nat, 7 :: nat)]) = 1" by simp
  with h c probe_pass probe_result probe_body show ?thesis by simp
qed




text \<open>
  C4 does not hold of the code. With \<^verbatim>\<open>MAX_TASKS\<close> 2, register A, register B, remove
  slot 0: \<^verbatim>\<open>tasks_counter\<close> is 1 while B is still registered in slot 1, which is not
  below the counter. After a tick B is \<^verbatim>\<open>READY\<close>, yet a dispatch pass scans slot 0 only
  and calls nothing; and registering a third task C succeeds and is written over B in
  slot 1.
\<close>

theorem remove_leaves_gap:
  "run_ops 2 no_effect gap_ops (fresh 2) = Inr gap_example
   \<and> tasks_counter gap_example = 1
   \<and> ptask (task_array gap_example 1) = 8
   \<and> status (task_array (snd (scheduler_update 2 gap_example)) 1) = READY
   \<and> map_sum id snd (scheduler_dispatch_task 2 no_effect (snd (scheduler_update 2 gap_example)))
       = Inr []
   \<and> fst (scheduler_add_task 2 9 (Some ''C'') 0 0 1 gap_example) = SCH_STATUS_OK
   \<and> ptask (task_array (snd (scheduler_add_task 2 9 (Some ''C'') 0 0 1 gap_example)) 1) = 9"
proof -
  have c: "tasks_counter gap_example = 1"
    unfolding gap_example_def gap_ops_def fresh_boot
    by (simp add: sched_defs add_scan.simps)
  have a0: "task_array gap_example 0 = \<lparr>ptask = 0, task_name = Some ''A'', delay = 0, period = 1,
       status = STOPPED, task_handler = \<lparr>index = 0, parameter = 0\<rparr>\<rparr>"
    unfolding gap_example_def gap_ops_def fresh_boot
    by (simp add: sched_defs add_scan.simps)
  have a1: "task_array gap_example 1 = \<lparr>ptask = 8, task_name = Some ''B'', delay = 0, period = 1,
       status = STOPPED, task_handler = \<lparr>index = 1, parameter = 0\<rparr>\<rparr>"
    unfolding gap_example_def gap_ops_def fresh_boot
    by (simp add: sched_defs add_scan.simps)
  have a1': "task_array gap_example (Suc 0) = \<lparr>ptask = 8, task_name = Some ''B'', delay = 0,
       period = 1, status = STOPPED, task_handler = \<lparr>index = 1, parameter = 0\<rparr>\<rparr>"
    using a1 by simp
  have t0: "task_array (snd (scheduler_update 2 gap_example)) 0 = task_array gap_example 0"
    by (simp add: tick_array a0 update_task_def NULL_def)
  have t1: "status (task_array (snd (scheduler_update 2 gap_example)) 1) = READY"
    by (simp add: tick_array a1' update_task_def NULL_def)
  have d: "map_sum id snd (scheduler_dispatch_task 2 no_effect (snd (scheduler_update 2 gap_example)))
       = Inr []"
    unfolding scheduler_dispatch_task_def
    apply (subst dispatch_loop.simps)
    apply (simp add: tick_counter c dispatch_body_def t0 a0)
    apply (subst dispatch_loop.simps)
    apply (simp add: tick_counter c)
    done
  have ok: "fst (scheduler_add_task 2 9 (Some ''C'') 0 0 1 gap_example) = SCH_STATUS_OK"
  proof (rule add_fresh_slot)
    show "unat (tasks_counter gap_example) < 2" by (simp add: c)
    fix i :: nat
    assume "i < 2"
    then have "i = 0 \<or> i = 1" by auto
    then show "ptask (task_array gap_example i) \<noteq> 9" by (auto simp: a0 a1')
  qed
  have "ptask (task_array (snd (scheduler_add_task 2 9 (Some ''C'') 0 0 1 gap_example)) 1) = 9"
    by (simp add: add_success_array [OF ok] c)
  with gap_run c a1 t1 d ok show ?thesis by simp
qed

text \<open>
  C5 does not hold of the code, for the same reason. With \<^verbatim>\<open>MAX_TASKS\<close> 2, register A
  with period 1, register B with period 0 (which succeeds), remove slot 0: B is still
  registered in slot 1 with status \<^verbatim>\<open>RUN_ALWAYS\<close>, but a dispatch pass scans slot 0
  only and does not call B.
\<close>

theorem run_always_skipped:
  "fst (scheduler_add_task 2 8 (Some ''B'') 0 0 0
          (snd (scheduler_add_task 2 7 (Some ''A'') 0 0 1 (fresh 2)))) = SCH_STATUS_OK
   \<and> run_ops 2 no_effect always_ops (fresh 2) = Inr always_example
   \<and> ptask (task_array always_example 1) = 8
   \<and> status (task_array always_example 1) = RUN_ALWAYS
   \<and> map_sum id snd (scheduler_dispatch_task 2 no_effect always_example) = Inr []"
proof -
  have ok: "fst (scheduler_add_task 2 8 (Some ''B'') 0 0 0
          (snd (scheduler_add_task 2 7 (Some ''A'') 0 0 1 (fresh 2)))) = SCH_STATUS_OK"
    unfolding fresh_boot by (simp add: sched_defs add_scan.simps)
  have c: "tasks_counter always_example = 1"
    unfolding always_example_def always_ops_def fresh_boot
    by (simp add: sched_defs add_scan.simps)
  have a0: "task_array always_example 0 = \<lparr>ptask = 0, task_name = Some ''A'', delay = 0,
       period = 1, status = STOPPED, task_handler = \<lparr>index = 0, parameter = 0\<rparr>\<rparr>"
    unfolding always_example_def always_ops_def fresh_boot
    by (simp add: sched_defs add_scan.simps)
  have a1: "task_array always_example 1 = \<lparr>ptask = 8, task_name = Some ''B'', delay = 0,
       period = 0, status = RUN_ALWAYS, task_handler = \<lparr>index = 1, parameter = 0\<rparr>\<rparr>"
    unfolding always_example_def always_ops_def fresh_boot
    by (simp add: sched_defs add_scan.simps)
  have d: "map_sum id snd (scheduler_dispatch_task 2 no_effect always_example) = Inr []"
    unfolding scheduler_dispatch_task_def
    apply (subst dispatch_loop.simps)
    apply (simp add: c dispatch_body_def a0)
    apply (subst dispatch_loop.simps)
    apply (simp add: c)
    done
  from ok always_run a1 d show ?thesis by simp
qed

text \<open>
  C6. With \<^verbatim>\<open>MAX_TASKS\<close> a capacity \<open>n\<close> that a \<^verbatim>\<open>uint32_t\<close> can count, after every
  sequence of register and remove calls on the freshly initialized scheduler that runs
  without a fault (every removed index is below \<open>n\<close>): \<^verbatim>\<open>tasks_counter\<close> is at most
  \<open>n\<close>; when it equals \<open>n\<close>, registration returns \<^verbatim>\<open>SCH_ERROR\<close> and leaves the counter;
  and a removal decrements the counter only when the slot is active, in which case the
  counter was positive, so that it never wraps below zero.
\<close>

theorem counter_within_capacity:
  assumes n: "n < 2 ^ 32" and reg: "list_all reg_op ops"
    and run: "run_ops n cb ops (fresh n) = Inr s"
  shows "unat (tasks_counter s) \<le> n
       \<and> (unat (tasks_counter s) = n \<longrightarrow>
            fst (scheduler_add_task n task name prm d p s) = SCH_ERROR \<and>
            tasks_counter (snd (scheduler_add_task n task name prm d p s)) = tasks_counter s)
       \<and> (\<forall>i s'. scheduler_delete_task n i s = Inr (SCH_STATUS_OK, s') \<longrightarrow>
            (if ptask (task_array s i) \<noteq> NULL
             then 0 < unat (tasks_counter s) \<and>
                  unat (tasks_counter s') = unat (tasks_counter s) - 1
             else tasks_counter s' = tasks_counter s))"
proof -
  have "run_ops n cb ops (fresh n) = run_ops n no_effect ops boot"
    unfolding fresh_boot using reg by (rule reg_ops_callbacks)
  with run have r: "run_ops n no_effect ops boot = Inr s" by simp
  have c0: "unat (tasks_counter boot) \<le> n" by (simp add: boot_def)
  from counter_bound_run_ops [OF n table_inv_boot c0 reg r]
  have inv: "table_inv n s" and c: "unat (tasks_counter s) \<le> n" by simp_all
  have full: "fst (scheduler_add_task n task name prm d p s) = SCH_ERROR \<and>
            tasks_counter (snd (scheduler_add_task n task name prm d p s)) = tasks_counter s"
    if "unat (tasks_counter s) = n"
    using that by (simp add: scheduler_add_task_def set_flag_def)
  have del: "if ptask (task_array s i) \<noteq> NULL
             then 0 < unat (tasks_counter s) \<and>
                  unat (tasks_counter s') = unat (tasks_counter s) - 1
             else tasks_counter s' = tasks_counter s"
    if d: "scheduler_delete_task n i s = Inr (SCH_STATUS_OK, s')" for i s'
  proof (cases "ptask (task_array s i) \<noteq> NULL")
    case False
    with d show ?thesis by (auto simp: scheduler_delete_task_def split: if_splits)
  next
    case True
    from d have lt: "i < n" by (auto simp: scheduler_delete_task_def split: if_splits)
    have pos: "0 < unat (tasks_counter s)" using inv lt True by (rule counter_positive)
    then have "tasks_counter s \<noteq> 0" by (simp add: unat_gt_0)
    then have "unat (tasks_counter s - 1) = unat (tasks_counter s) - 1" by (rule unat_minus_one)
    moreover from d delete_active [OF lt True]
    have "tasks_counter s' = tasks_counter s - 1" by (auto simp: put_task_def)
    ultimately show ?thesis using True pos by simp
  qed
  show ?thesis
  proof (intro conjI allI impI)
    show "unat (tasks_counter s) \<le> n" by (rule c)
  next
    assume "unat (tasks_counter s) = n"
    then show "fst (scheduler_add_task n task name prm d p s) = SCH_ERROR"
      by (rule full [THEN conjunct1])
  next
    assume "unat (tasks_counter s) = n"
    then show "tasks_counter (snd (scheduler_add_task n task name prm d p s)) = tasks_counter s"
      by (rule full [THEN conjunct2])
  next
    fix i s'
    assume "scheduler_delete_task n i s = Inr (SCH_STATUS_OK, s')"
    then show "if ptask (task_array s i) \<noteq> NULL
             then 0 < unat (tasks_counter s) \<and>
                  unat (tasks_counter s') = unat (tasks_counter s) - 1
             else tasks_counter s' = tasks_counter s"
      by (rule del)
  qed
qed

theorem counter_within_capacity_witness:
  "list_all reg_op full_ops
   \<and> run_ops 2 no_effect full_ops (fresh 2) = Inr full_example
   \<and> unat (tasks_counter full_example) = 2
   \<and> fst (scheduler_add_task 2 9 (Some ''C'') 0 0 1 full_example) = SCH_ERROR
   \<and> tasks_counter (snd (scheduler_add_task 2 9 (Some ''C'') 0 0 1 full_example)) =
        tasks_counter full_example"
proof -
  have n: "(2::nat) < 2 ^ 32" by simp
  have reg: "list_all reg_op full_ops" by (simp add: full_ops_def)
  have c: "unat (tasks_counter full_example) = 2"
    unfolding full_example_def full_ops_def fresh_boot
    by (simp add: sched_defs add_scan.simps)
  from counter_within_capacity [OF n reg full_run, of 9 "Some ''C''" 0 0 1] c reg full_run
  show ?thesis by simp
qed

text \<open>
  C7. Registering a callback that some slot of the table already holds (in particular an
  active slot, whose callback is not null) returns \<^verbatim>\<open>SCH_ERROR\<close> and leaves
  \<^verbatim>\<open>tasks_counter\<close> and every record of \<^verbatim>\<open>task_array\<close> as they were, whatever the
  state of the table. Only the flag bits of \<^verbatim>\<open>scheduler_status\<close> change.
\<close>

theorem add_duplicate_rejected:
  assumes "i < n" and "ptask (task_array s i) = task"
  shows "fst (scheduler_add_task n task name task_param dly per s) = SCH_ERROR
       \<and> tasks_counter (snd (scheduler_add_task n task name task_param dly per s)) = tasks_counter s
       \<and> task_array (snd (scheduler_add_task n task name task_param dly per s)) = task_array s"
proof (cases "unat (tasks_counter s) < n")
  case True
  obtain ret s1 where sc: "add_scan n task 0 (SCH_STATUS_OK, s) = (ret, s1)"
    by (cases "add_scan n task 0 (SCH_STATUS_OK, s)")
  from assms have "fst (add_scan n task 0 (SCH_STATUS_OK, s)) = SCH_ERROR"
    by (intro add_scan_hit) auto
  with sc have ret: "ret = SCH_ERROR" by simp
  from add_scan_table [of n task 0 SCH_STATUS_OK s] sc
  have "tasks_counter s1 = tasks_counter s" "task_array s1 = task_array s" by simp_all
  with True sc ret show ?thesis
    by (simp add: scheduler_add_task_def SCH_ERROR_def SCH_STATUS_OK_def)
next
  case False
  then show ?thesis
    by (simp add: scheduler_add_task_def set_flag_def)
qed

theorem add_duplicate_rejected_witness:
  "ptask (task_array tick_example 0) = 7
   \<and> fst (scheduler_add_task 3 7 (Some ''led'') 0 2 5 tick_example) = SCH_ERROR
   \<and> tasks_counter (snd (scheduler_add_task 3 7 (Some ''led'') 0 2 5 tick_example)) =
       tasks_counter tick_example
   \<and> task_array (snd (scheduler_add_task 3 7 (Some ''led'') 0 2 5 tick_example)) =
       task_array tick_example"
  using add_duplicate_rejected [of 0 3 tick_example 7 "Some ''led''" 0 2 5]
  by (simp add: tick_example_def put_task_def)

text \<open>
  C8, as stated, fails. Registration stores the delay it is given, whatever the period:
  a task registered with delay 10 and period 5 has a delay above its period.
\<close>

theorem periodic_delay_counterexample:
  "fst (scheduler_add_task 4 8 (Some ''B'') 0 10 5 (fresh 4)) = SCH_STATUS_OK
   \<and> period (task_array long_delay_example 0) = 5
   \<and> delay (task_array long_delay_example 0) = 10
   \<and> \<not> delay (task_array long_delay_example 0) \<le> period (task_array long_delay_example 0)"
proof -
  have ok: "fst (scheduler_add_task 4 8 (Some ''B'') 0 10 5 boot) = SCH_STATUS_OK"
    by (rule add_on_boot) (simp_all add: NULL_def)
  have "task_array long_delay_example 0 =
      \<lparr>ptask = 8, task_name = Some ''B'', delay = 10, period = 5, status = STOPPED,
       task_handler = \<lparr>index = 0, parameter = 0\<rparr>\<rparr>"
    by (simp add: long_delay_example_def fresh_boot add_success_array [OF ok])
       (simp add: boot_def)
  with ok show ?thesis by (simp add: fresh_boot)
qed

text \<open>
  C8, amended. Start in any state in which a callback is not registered, and let its
  registrations from then on be made with a delay that is at most the period whenever
  the period is positive. Then in every state reached by calls of initialize, register,
  remove, tick and dispatch (with callbacks that leave the scheduler's variables alone),
  every slot that holds the callback with a positive period, that is the periodic task
  from the moment its registration succeeds, has its delay at most its period; the next
  tick keeps the period and the bound, sets the delay to the period when the delay is 0
  and decrements it by one otherwise, so the delay equals the period after a tick exactly
  when it was 0 before.
\<close>

theorem periodic_delay_bounded:
  fixes s0 s :: sched
  assumes start: "\<forall>j<n. ptask (task_array s0 j) \<noteq> task"
    and run: "run_ops n no_effect ops s0 = Inr s"
    and reg: "list_all (within_period task) ops"
    and task: "task \<noteq> NULL" and lt: "i < n"
    and slot: "ptask (task_array s i) = task" and per: "0 < period (task_array s i)"
  shows "delay (task_array s i) \<le> period (task_array s i)
       \<and> period (task_array (snd (scheduler_update n s)) i) = period (task_array s i)
       \<and> delay (task_array (snd (scheduler_update n s)) i) \<le> period (task_array s i)
       \<and> delay (task_array (snd (scheduler_update n s)) i) =
           (if delay (task_array s i) = 0 then period (task_array s i)
            else delay (task_array s i) - 1)
       \<and> ((delay (task_array (snd (scheduler_update n s)) i) = period (task_array s i)) =
           (delay (task_array s i) = 0))"
proof -
  from start have "timely task n s0" by (simp add: timely_def)
  from this task reg run have "timely task n s" by (rule timely_run_ops)
  with lt slot per have le: "delay (task_array s i) \<le> period (task_array s i)"
    by (simp add: timely_def)
  from slot task have a: "ptask (task_array s i) \<noteq> NULL" by simp
  from periodic_step(2-5) [OF a per le] le lt show ?thesis by (simp add: tick_array)
qed

theorem periodic_delay_bounded_witness:
  "ptask (task_array (fresh 4) 0) \<noteq> 8 \<and> ptask (task_array (fresh 4) 1) \<noteq> 8
   \<and> ptask (task_array (fresh 4) 2) \<noteq> 8 \<and> ptask (task_array (fresh 4) 3) \<noteq> 8
   \<and> run_ops 4 no_effect periodic_ops (fresh 4) = Inr periodic_example
   \<and> list_all (within_period 8) periodic_ops
   \<and> ptask (task_array periodic_example 0) = 8
   \<and> period (task_array periodic_example 0) = 5
   \<and> delay (task_array periodic_example 0) \<le> 5
   \<and> delay (task_array (snd (scheduler_update 4 periodic_example)) 0) = 3"
proof -
  have reg: "list_all (within_period 8) periodic_ops" by (simp add: periodic_ops_def)
  have h: "(8::nat) \<noteq> NULL" "(0::nat) < 4" "ptask (task_array periodic_example 0) = 8"
    "0 < period (task_array periodic_example 0)"
    by (simp_all add: NULL_def periodic_slot)
  have start: "\<forall>j<4. ptask (task_array (fresh 4) j) \<noteq> 8"
    by (simp add: fresh_boot boot_def empty_task_def NULL_def)
  have none: "ptask (task_array (fresh 4) j) \<noteq> 8" for j
    by (simp add: fresh_boot boot_def empty_task_def NULL_def)
  from periodic_delay_bounded [OF start periodic_ops_run reg h]
    none periodic_ops_run reg periodic_slot
  show ?thesis by simp
qed

text \<open>
  C9, as stated, fails. \<^verbatim>\<open>scheduler_delete_task\<close> does not assign \<^verbatim>\<open>period\<close> and
  \<^verbatim>\<open>task_name\<close>: after registering a task with period 5 and name B and removing it,
  the slot is inactive and still holds that period and that name.
\<close>

theorem inactive_slot_stale_counterexample:
  "run_ops 4 no_effect stale_ops (fresh 4) = Inr stale_example
   \<and> ptask (task_array stale_example 0) = NULL
   \<and> period (task_array stale_example 0) = 5
   \<and> task_name (task_array stale_example 0) = Some ''B''"
  using stale_run by (simp add: stale_example_def NULL_def empty_task_def)

text \<open>
  C9, amended. In every state reached from the freshly initialized scheduler by calls of
  initialize, register, remove, tick and dispatch (with callbacks that leave the
  scheduler's variables alone), every slot whose callback is null has status
  \<^verbatim>\<open>STOPPED\<close>, delay 0, handler index 0 and a null handler parameter; and removing a
  slot leaves it with a null callback and with the period and the name it had.
\<close>

theorem inactive_slot_fields:
  assumes "n < 2 ^ 32" and "run_ops n no_effect ops (fresh n) = Inr s" and "i < n"
  shows "(ptask (task_array s i) = NULL \<longrightarrow>
            status (task_array s i) = STOPPED \<and> delay (task_array s i) = 0 \<and>
            index (task_handler (task_array s i)) = 0 \<and>
            parameter (task_handler (task_array s i)) = NULL)
       \<and> (\<exists>s'. scheduler_delete_task n i s = Inr (SCH_STATUS_OK, s') \<and>
             ptask (task_array s' i) = NULL \<and>
             period (task_array s' i) = period (task_array s i) \<and>
             task_name (task_array s' i) = task_name (task_array s i))"
proof -
  from assms(2) have "run_ops n no_effect ops boot = Inr s" by (simp add: fresh_boot)
  with assms(1) table_inv_boot have "table_inv n s" by (rule table_inv_run_ops)
  with assms(3) have "ptask (task_array s i) = NULL \<longrightarrow>
            status (task_array s i) = STOPPED \<and> delay (task_array s i) = 0 \<and>
            index (task_handler (task_array s i)) = 0 \<and>
            parameter (task_handler (task_array s i)) = NULL"
    by (simp add: table_inv_def neutral_def)
  with delete_keeps_period_name [OF assms(3), of s] show ?thesis by blast
qed

theorem inactive_slot_fields_witness:
  "run_ops 4 no_effect stale_ops (fresh 4) = Inr stale_example
   \<and> ptask (task_array stale_example 0) = NULL
   \<and> status (task_array stale_example 0) = STOPPED
   \<and> delay (task_array stale_example 0) = 0
   \<and> index (task_handler (task_array stale_example 0)) = 0
   \<and> parameter (task_handler (task_array stale_example 0)) = NULL
   \<and> run_ops 4 no_effect late_ops (fresh 4) = Inr late_example
   \<and> scheduler_delete_task 4 0 late_example = Inr (SCH_STATUS_OK, stale_example)
   \<and> period (task_array stale_example 0) = period (task_array late_example 0)
   \<and> task_name (task_array stale_example 0) = task_name (task_array late_example 0)
   \<and> period (task_array late_example 0) = 5
   \<and> task_name (task_array late_example 0) = Some ''B''"
proof -
  have n: "(4::nat) < 2 ^ 32" "(0::nat) < 4" by simp_all
  have p: "ptask (task_array stale_example 0) = NULL"
    by (simp add: stale_example_def NULL_def empty_task_def)
  from inactive_slot_fields [OF n(1) stale_run n(2), THEN conjunct1] p
  have a: "status (task_array stale_example 0) = STOPPED \<and> delay (task_array stale_example 0) = 0 \<and>
            index (task_handler (task_array stale_example 0)) = 0 \<and>
            parameter (task_handler (task_array stale_example 0)) = NULL" by simp
  from inactive_slot_fields [OF n(1) late_run n(2), THEN conjunct2] late_removed
  have b: "period (task_array stale_example 0) = period (task_array late_example 0) \<and>
           task_name (task_array stale_example 0) = task_name (task_array late_example 0)" by simp
  from a b p stale_run late_run late_removed late_slot show ?thesis by simp
qed



end
